theory Spec2Isabelle
  imports Main "HOL-Library.Word"
begin

unbundle bit_operations_syntax

section \<open>The seekable decompressing reader of wiretap/file\_wrappers.c\<close>

text \<open>
  The embedding follows the full-featured build of the file (\<^verbatim>\<open>HAVE_ZLIB\<close>, \<^verbatim>\<open>Z_BLOCK\<close>,
  \<^verbatim>\<open>HAVE_INFLATEPRIME\<close>, \<^verbatim>\<open>HAVE_ZSTD\<close> and \<^verbatim>\<open>USE_LZ4\<close> defined).

  Conventions.
  \<^item> \<^verbatim>\<open>gint64\<close> positions are \<open>int\<close>, \<^verbatim>\<open>guint\<close> counters are \<open>nat\<close>; a subtraction
    of \<^verbatim>\<open>guint\<close>s that can go below zero and a cast to \<^verbatim>\<open>unsigned\<close> or \<^verbatim>\<open>int\<close> are written
    out with their wrap-around (\<open>guint_sub\<close>, \<open>to_guint\<close>, \<open>to_int\<close>).
  \<^item> A buffer is its memory (a byte list), the offset of \<^verbatim>\<open>next\<close> from \<^verbatim>\<open>buf\<close> and
    \<^verbatim>\<open>avail\<close>. \<^verbatim>\<open>next\<close>, \<^verbatim>\<open>in\<close>, \<^verbatim>\<open>out\<close> and \<^verbatim>\<open>size\<close> are reserved words or constants of
    HOL, so the fields are called \<open>nxt\<close>, \<open>in_buf\<close>, \<open>out_buf\<close> and \<open>bsize\<close>.
  \<^item> \<^verbatim>\<open>err\<close> is an \<^verbatim>\<open>int\<close> in the source, with 0 for "no error"; the values of the
    \<^verbatim>\<open>WTAP_ERR_\<close> and \<^verbatim>\<open>errno\<close> constants are declared in headers outside the file, so the
    codes are kept apart as constructors of a datatype and \<open>NO_ERROR\<close> stands for 0.
  \<^item> The file descriptor is a file with a current offset. The decompression libraries
    are black boxes: every function that calls them takes their operations as a record
    of functions, and what is proved holds for every such record.
  \<^item> A function with a loop that need not end returns an \<open>option\<close>: \<open>None\<close> means that
    the call has no result (it runs forever, or it does what C leaves undefined).
\<close>

subsection \<open>Integers\<close>

type_synonym byte = "8 word"

definition to_guint :: "int \<Rightarrow> nat" where
  \<comment> \<open>the cast \<^verbatim>\<open>(unsigned)x\<close> of a \<^verbatim>\<open>gint64\<close>\<close>
  "to_guint x = nat (x mod 2 ^ 32)"

definition to_int :: "nat \<Rightarrow> int" where
  \<comment> \<open>the cast \<^verbatim>\<open>(int)x\<close> of a \<^verbatim>\<open>guint\<close>\<close>
  "to_int x = (if x mod 2 ^ 32 < 2 ^ 31 then int (x mod 2 ^ 32) else int (x mod 2 ^ 32) - 2 ^ 32)"

definition guint_sub :: "nat \<Rightarrow> nat \<Rightarrow> nat" where
  \<comment> \<open>\<^verbatim>\<open>a - b\<close> on \<^verbatim>\<open>guint\<close>s\<close>
  "guint_sub a b = (if b \<le> a then a - b else (a + 2 ^ 32 - b mod 2 ^ 32) mod 2 ^ 32)"

subsection \<open>The fast-seek array\<close>

datatype compression_t = UNKNOWN | UNCOMPRESSED | ZLIB | GZIP_AFTER_HEADER | ZSTD | LZ4

definition ZLIB_WINSIZE :: nat where
  "ZLIB_WINSIZE = 32768"

definition SPAN :: int where
  "SPAN = 1048576"

record fast_seek_point =
  fsp_out :: int
  fsp_in :: int
  fsp_compression :: compression_t
  fsp_bits :: nat
  fsp_window :: "byte list"
  fsp_adler :: "32 word"
  fsp_total_out :: "32 word"

record zlib_cur_seek_point =
  cur_window :: "byte list"
  cur_pos :: nat
  cur_have :: nat

text \<open>
  The loop of \<^verbatim>\<open>fast_seek_find\<close>, over the array \<^verbatim>\<open>file->fast_seek->pdata\<close> of length
  \<^verbatim>\<open>len\<close>. \<^verbatim>\<open>low\<close>, \<^verbatim>\<open>i\<close> and \<^verbatim>\<open>max\<close> (here \<open>mx\<close>) are \<^verbatim>\<open>guint\<close>s, so \<^verbatim>\<open>low + max\<close> wraps at
  \<open>2 ^ 32\<close>, and then the loop need not end: the result is an \<open>option\<close>, and the
  pointer it returns (\<open>None\<close> for \<^verbatim>\<open>NULL\<close>) is a second \<open>option\<close> inside.
\<close>

partial_function (option) fast_seek_find_loop ::
  "fast_seek_point list \<Rightarrow> int \<Rightarrow> fast_seek_point option \<Rightarrow> nat \<Rightarrow> nat
     \<Rightarrow> fast_seek_point option option"
where
  "fast_seek_find_loop pdata p smallest low mx =
     (if low < mx then
        (let i = ((low + mx) mod 2 ^ 32) div 2;
             item = pdata ! i
         in if p < fsp_out item then fast_seek_find_loop pdata p smallest low i
            else if p > fsp_out item then fast_seek_find_loop pdata p (Some item) (i + 1) mx
            else Some (Some item))
      else Some smallest)"

text \<open>
  \<^verbatim>\<open>fast_seek_header\<close> and \<^verbatim>\<open>zlib_fast_seek_add\<close> use \<^verbatim>\<open>file\<close> only for the array
  \<^verbatim>\<open>file->fast_seek\<close> (and the latter for \<^verbatim>\<open>strm.adler\<close> and \<^verbatim>\<open>strm.total_out\<close>), so they
  are functions of the array. \<^verbatim>\<open>g_new\<close> does not initialise the new point: the fields
  that the source leaves unset, and never reads for such a point, get fixed values.
\<close>

definition fast_seek_header ::
  "fast_seek_point list \<Rightarrow> int \<Rightarrow> int \<Rightarrow> compression_t \<Rightarrow> fast_seek_point list"
where
  "fast_seek_header pdata in_pos out_pos compression =
     (let item = (if length pdata \<noteq> 0 then Some (pdata ! (length pdata - 1)) else None) in
      if item = None \<or> fsp_out (the item) < out_pos then
        pdata @ [\<lparr>fsp_out = out_pos, fsp_in = in_pos, fsp_compression = compression,
                  fsp_bits = 0, fsp_window = [], fsp_adler = 0, fsp_total_out = 0\<rparr>]
      else pdata)"

text \<open>
  \<^verbatim>\<open>zlib_fast_seek_add\<close> reads \<^verbatim>\<open>pdata[len - 1]\<close> without a test ("it's for sure after
  gzip header, so \<^verbatim>\<open>file->fast_seek->len != 0\<close>"): on an empty array the read is out of
  bounds and the model has no result. The window is copied out rotated, oldest byte
  first.
\<close>

definition zlib_fast_seek_add ::
  "fast_seek_point list \<Rightarrow> zlib_cur_seek_point \<Rightarrow> nat \<Rightarrow> int \<Rightarrow> int \<Rightarrow> 32 word \<Rightarrow> nat
     \<Rightarrow> fast_seek_point list option"
where
  "zlib_fast_seek_add pdata point bits in_pos out_pos strm_adler strm_total_out =
     (if length pdata = 0 then None
      else
        (let item = pdata ! (length pdata - 1) in
         if fsp_out item + SPAN < out_pos then
           Some (pdata @
             [\<lparr>fsp_out = out_pos, fsp_in = in_pos, fsp_compression = ZLIB, fsp_bits = bits,
               fsp_window =
                 (if cur_pos point \<noteq> 0 then
                    (let left = guint_sub ZLIB_WINSIZE (cur_pos point) in
                     take left (drop (cur_pos point) (cur_window point)) @
                     take (cur_pos point) (cur_window point))
                  else take ZLIB_WINSIZE (cur_window point)),
               fsp_adler = strm_adler,
               fsp_total_out = of_nat strm_total_out\<rparr>])
         else Some pdata))"

subsection \<open>The file descriptor\<close>

text \<open>
  The file behind \<^verbatim>\<open>fd\<close>: its bytes and the current offset. \<^verbatim>\<open>ws_read\<close> delivers the
  bytes at the offset, as many as are asked for and are left. \<open>events\<close> scripts what else
  a read may do: fail with an \<^verbatim>\<open>errno\<close>, or deliver fewer bytes than asked (a pipe); one
  event is used up by each read, and with no event left every read is a full one.
  \<^verbatim>\<open>ws_lseek64\<close> fails on a file that cannot seek and on a negative target.
\<close>

datatype os_errno = EINVAL | ENOMEM | ESPIPE | EIO

datatype errcode = NO_ERROR | ERRNO os_errno | WTAP_ERR_SHORT_READ | WTAP_ERR_DECOMPRESS

datatype read_event = Fail os_errno | Deliver nat

datatype whence_t = SEEK_SET | SEEK_CUR | SEEK_END

record os_file =
  contents :: "byte list"
  fpos :: nat
  events :: "read_event list"
  seekable :: bool

definition ws_read :: "os_file \<Rightarrow> nat \<Rightarrow> (os_errno + byte list) \<times> os_file" where
  "ws_read f n =
     (case events f of
        [] \<Rightarrow>
          (let bs = take n (drop (fpos f) (contents f))
           in (Inr bs, f\<lparr>fpos := fpos f + length bs\<rparr>))
      | ev # evs \<Rightarrow>
          (case ev of
             Fail e \<Rightarrow> (Inl e, f\<lparr>events := evs\<rparr>)
           | Deliver k \<Rightarrow>
               (let bs = take (min k n) (drop (fpos f) (contents f))
                in (Inr bs, f\<lparr>fpos := fpos f + length bs, events := evs\<rparr>))))"

definition ws_lseek64 :: "os_file \<Rightarrow> int \<Rightarrow> whence_t \<Rightarrow> os_errno + os_file" where
  "ws_lseek64 f off whence =
     (if \<not> seekable f then Inl ESPIPE
      else
        (let target = (case whence of
                         SEEK_SET \<Rightarrow> off
                       | SEEK_CUR \<Rightarrow> int (fpos f) + off
                       | SEEK_END \<Rightarrow> int (length (contents f)) + off)
         in if target < 0 then Inl EINVAL else Inr (f\<lparr>fpos := nat target\<rparr>)))"

subsection \<open>The reader\<close>

record wtap_reader_buf =
  buf :: "byte list"
  nxt :: nat
  avail :: nat

datatype zret = Z_OK | Z_STREAM_END | Z_NEED_DICT | Z_STREAM_ERROR | Z_DATA_ERROR
  | Z_MEM_ERROR | Z_BUF_ERROR

text \<open>
  The fields of \<^verbatim>\<open>z_stream\<close> that the file reads or writes between calls; \<open>zstate\<close> is
  what the library keeps for itself. \<^verbatim>\<open>next_in\<close>, \<^verbatim>\<open>avail_in\<close>, \<^verbatim>\<open>next_out\<close> and
  \<^verbatim>\<open>avail_out\<close> are set before each call and are arguments of \<open>inflate\<close> below.
\<close>

record 'z z_stream =
  adler :: "32 word"
  total_out :: nat
  data_type :: "32 word"
  msg :: "string option"
  zstate :: 'z

record 'z wtap_reader =
  fd :: os_file
  raw_pos :: int
  pos :: int
  bsize :: nat
  in_buf :: wtap_reader_buf
  out_buf :: wtap_reader_buf
  eof :: bool
  start :: int
  raw :: int
  compression :: compression_t
  is_compressed :: bool
  skip :: int
  seek_pending :: bool
  err :: errcode
  err_info :: "string option"
  strm :: "'z z_stream"
  dont_check_crc :: bool
  fast_seek :: "fast_seek_point list option"
  fast_seek_cur :: "zlib_cur_seek_point option"
  zstd_dctx :: 'z
  lz4_dctx :: 'z

subsection \<open>The decompression libraries\<close>

text \<open>
  What a library call gives back. \<^verbatim>\<open>inflate\<close>: the return code, the bytes of input it
  used, the bytes it produced, \<^verbatim>\<open>data_type\<close>, \<^verbatim>\<open>msg\<close> and its new state. The zstd and lz4
  decoders: an error name or the value returned, the bytes produced and the count of
  input bytes used.
\<close>

record 'z inflate_result =
  ir_ret :: zret
  ir_consumed :: nat
  ir_produced :: "byte list"
  ir_data_type :: "32 word"
  ir_msg :: "string option"
  ir_state :: 'z

record 'z decoder_result =
  dr_ret :: "string + nat"
  dr_consumed :: nat
  dr_produced :: "byte list"
  dr_state :: 'z

record 'z backend =
  inflateInit2_fn :: 'z
  inflate_fn :: "'z \<Rightarrow> byte list \<Rightarrow> nat \<Rightarrow> 'z inflate_result"
  inflateReset_fn :: "'z \<Rightarrow> 'z"
  inflatePrime_fn :: "'z \<Rightarrow> nat \<Rightarrow> int \<Rightarrow> 'z"
  inflateSetDictionary_fn :: "'z \<Rightarrow> byte list \<Rightarrow> 'z"
  crc32_fn :: "32 word \<Rightarrow> byte list \<Rightarrow> 32 word"
  ZSTD_createDCtx_fn :: 'z
  ZSTD_initDStream_fn :: "'z \<Rightarrow> string option \<times> 'z"
  ZSTD_decompressStream_fn :: "'z \<Rightarrow> nat \<Rightarrow> byte list \<Rightarrow> 'z decoder_result"
  LZ4F_createDecompressionContext_fn :: 'z
  LZ4F_resetDecompressionContext_fn :: "'z \<Rightarrow> 'z"
  LZ4F_decompress_fn :: "'z \<Rightarrow> nat \<Rightarrow> byte list \<Rightarrow> 'z decoder_result"

text \<open>
  The calls as the file makes them. The libraries never use more input than there is and
  never produce more than \<^verbatim>\<open>avail_out\<close>; \<^verbatim>\<open>inflate\<close> adds what it produced to
  \<^verbatim>\<open>total_out\<close>, and \<^verbatim>\<open>inflateReset\<close> clears \<^verbatim>\<open>total_out\<close> and \<^verbatim>\<open>msg\<close>.
\<close>

definition inflate ::
  "'z backend \<Rightarrow> 'z z_stream \<Rightarrow> byte list \<Rightarrow> nat \<Rightarrow> zret \<times> nat \<times> byte list \<times> 'z z_stream"
where
  "inflate be s inp avail_out =
     (let r = inflate_fn be (zstate s) inp avail_out;
          produced = take avail_out (ir_produced r)
      in (ir_ret r, min (ir_consumed r) (length inp), produced,
          s\<lparr>total_out := total_out s + length produced, data_type := ir_data_type r,
            msg := ir_msg r, zstate := ir_state r\<rparr>))"

definition inflateReset :: "'z backend \<Rightarrow> 'z z_stream \<Rightarrow> 'z z_stream" where
  "inflateReset be s = s\<lparr>total_out := 0, msg := None, zstate := inflateReset_fn be (zstate s)\<rparr>"

definition decoder_call ::
  "('z \<Rightarrow> nat \<Rightarrow> byte list \<Rightarrow> 'z decoder_result) \<Rightarrow> 'z \<Rightarrow> nat \<Rightarrow> byte list
     \<Rightarrow> (string + nat) \<times> nat \<times> byte list \<times> 'z"
where
  "decoder_call f d cap inp =
     (let r = f d cap inp
      in (dr_ret r, min (dr_consumed r) (length inp), take cap (dr_produced r), dr_state r))"

subsection \<open>Buffers\<close>

definition memcpy :: "byte list \<Rightarrow> nat \<Rightarrow> byte list \<Rightarrow> byte list" where
  \<comment> \<open>the memory \<open>dst\<close> after the bytes \<open>src\<close> were written at offset \<open>off\<close>\<close>
  "memcpy dst off src = take off dst @ src @ drop (off + length src) dst"

definition bytes_at :: "byte list \<Rightarrow> nat \<Rightarrow> nat \<Rightarrow> byte list" where
  \<comment> \<open>the \<open>n\<close> bytes of the memory \<open>m\<close> from offset \<open>off\<close>; a read behind the end of the
      memory, which C leaves undefined, gives zeros\<close>
  "bytes_at m off n = take n (drop off m @ replicate n 0)"

definition offset_in_buffer :: "wtap_reader_buf \<Rightarrow> nat" where
  "offset_in_buffer b = nxt b"

definition bytes_in_buffer :: "wtap_reader_buf \<Rightarrow> nat" where
  "bytes_in_buffer b = nxt b + avail b"

definition buf_reset :: "wtap_reader_buf \<Rightarrow> wtap_reader_buf" where
  "buf_reset b = b\<lparr>nxt := 0, avail := 0\<rparr>"

text \<open>\<^verbatim>\<open>buf_read\<close> is called with \<^verbatim>\<open>&state->in\<close> or \<^verbatim>\<open>&state->out\<close>.\<close>

datatype which_buf = IN_BUF | OUT_BUF

definition get_buf :: "which_buf \<Rightarrow> 'z wtap_reader \<Rightarrow> wtap_reader_buf" where
  "get_buf w state = (case w of IN_BUF \<Rightarrow> in_buf state | OUT_BUF \<Rightarrow> out_buf state)"

definition set_buf :: "which_buf \<Rightarrow> wtap_reader_buf \<Rightarrow> 'z wtap_reader \<Rightarrow> 'z wtap_reader" where
  "set_buf w b state =
     (case w of IN_BUF \<Rightarrow> state\<lparr>in_buf := b\<rparr> | OUT_BUF \<Rightarrow> state\<lparr>out_buf := b\<rparr>)"

definition buf_read :: "which_buf \<Rightarrow> 'z wtap_reader \<Rightarrow> int \<times> 'z wtap_reader" where
  "buf_read w state =
     (let b = get_buf w state;
          space_left = guint_sub (bsize state) (bytes_in_buffer b);
          b1 = (if space_left = 0 then buf_reset b else b);
          read_ptr = (if space_left = 0 then 0 else nxt b + avail b);
          to_read = (if space_left = 0 then bsize state else space_left);
          (ret, fd1) = ws_read (fd state) to_read
      in case ret of
           Inl e \<Rightarrow> (- 1, set_buf w b1 (state\<lparr>fd := fd1, err := ERRNO e, err_info := None\<rparr>))
         | Inr bs \<Rightarrow>
             (0, set_buf w (b1\<lparr>buf := memcpy (buf b1) read_ptr bs, avail := avail b1 + length bs\<rparr>)
                   (state\<lparr>fd := fd1, eof := (bs = [] \<or> eof state),
                          raw_pos := raw_pos state + int (length bs)\<rparr>)))"

definition fill_in_buffer :: "'z wtap_reader \<Rightarrow> int \<times> 'z wtap_reader" where
  "fill_in_buffer state =
     (if err state \<noteq> NO_ERROR then (- 1, state)
      else if \<not> eof state then
        (let (r, s1) = buf_read IN_BUF state in if r < 0 then (- 1, s1) else (0, s1))
      else (0, state))"

subsection \<open>Reading the gzip header and trailer\<close>

definition in_byte :: "'z wtap_reader \<Rightarrow> byte" where
  \<comment> \<open>\<^verbatim>\<open>state->in.next[0]\<close>\<close>
  "in_byte state = buf (in_buf state) ! nxt (in_buf state)"

definition in_advance :: "nat \<Rightarrow> 'z wtap_reader \<Rightarrow> 'z wtap_reader" where
  \<comment> \<open>\<^verbatim>\<open>state->in.avail -= n; state->in.next += n\<close>\<close>
  "in_advance n state =
     state\<lparr>in_buf := (in_buf state)\<lparr>avail := guint_sub (avail (in_buf state)) n,
                                    nxt := nxt (in_buf state) + n\<rparr>\<rparr>"

definition GZ_GETC :: "'z wtap_reader \<Rightarrow> int \<times> 'z wtap_reader" where
  "GZ_GETC state =
     (let (r, s1) = (if avail (in_buf state) = 0 then fill_in_buffer state else (0, state))
      in if r = - 1 then (- 1, s1)
         else if avail (in_buf s1) = 0 then (- 1, s1)
         else (uint (in_byte s1), in_advance 1 s1))"

definition set_short_read :: "'z wtap_reader \<Rightarrow> 'z wtap_reader" where
  \<comment> \<open>\<^verbatim>\<open>if (state->err == 0) { state->err = WTAP_ERR_SHORT_READ; state->err_info = NULL; }\<close>\<close>
  "set_short_read state =
     (if err state = NO_ERROR then state\<lparr>err := WTAP_ERR_SHORT_READ, err_info := None\<rparr>
      else state)"

definition gz_next1 :: "'z wtap_reader \<Rightarrow> byte option \<times> 'z wtap_reader" where
  "gz_next1 state =
     (let (ch, s1) = GZ_GETC state
      in if ch = - 1 then (None, set_short_read s1) else (Some (word_of_int ch), s1))"

definition gz_next2 :: "'z wtap_reader \<Rightarrow> 16 word option \<times> 'z wtap_reader" where
  "gz_next2 state =
     (let (c0, s1) = GZ_GETC state;
          (ch, s2) = GZ_GETC s1
      in if ch = - 1 then (None, set_short_read s2)
         else (Some (word_of_int c0 + push_bit 8 (word_of_int ch)), s2))"

definition gz_next4 :: "'z wtap_reader \<Rightarrow> 32 word option \<times> 'z wtap_reader" where
  "gz_next4 state =
     (let (c0, s1) = GZ_GETC state;
          (c1, s2) = GZ_GETC s1;
          (c2, s3) = GZ_GETC s2;
          (ch, s4) = GZ_GETC s3
      in if ch = - 1 then (None, set_short_read s4)
         else (Some (word_of_int c0 + push_bit 8 (word_of_int c1) + push_bit 16 (word_of_int c2)
                     + push_bit 24 (word_of_int ch)), s4))"

fun gz_skipn :: "'z wtap_reader \<Rightarrow> nat \<Rightarrow> int \<times> 'z wtap_reader" where
  "gz_skipn state 0 = (0, state)"
| "gz_skipn state (Suc n) =
     (let (ch, s1) = GZ_GETC state
      in if ch = - 1 then (- 1, set_short_read s1) else gz_skipn s1 n)"

text \<open>
  \<^verbatim>\<open>gz_skipzstr\<close> ends on every file: each round takes a byte from the input buffer or
  from the file.
\<close>

function gz_skipzstr :: "'z wtap_reader \<Rightarrow> int \<times> 'z wtap_reader" where
  "gz_skipzstr state =
     (let (ch, s1) = GZ_GETC state
      in if ch > 0 then gz_skipzstr s1
         else if ch = - 1 then (- 1, set_short_read s1)
         else (0, s1))"
  by pat_completeness auto

termination gz_skipzstr
proof (relation "measure (\<lambda>s. avail (in_buf s) + (length (contents (fd s)) - fpos (fd s)))")
  show "wf (measure (\<lambda>s::'a wtap_reader. avail (in_buf s) + (length (contents (fd s)) - fpos (fd s))))"
    by simp
next
  fix state :: "'a wtap_reader" and x ch s1
  assume "x = GZ_GETC state" and "(ch, s1) = x" and "0 < ch"
  then have g: "GZ_GETC state = (ch, s1)" and ch: "0 < ch" by simp_all
  define M :: "'a wtap_reader \<Rightarrow> nat"
    where "M = (\<lambda>s. avail (in_buf s) + (length (contents (fd s)) - fpos (fd s)))"
  have rd: "length (contents f') - fpos f' + (case r of Inl e \<Rightarrow> 0 | Inr bs \<Rightarrow> length bs)
              = length (contents f) - fpos f"
    if "ws_read f n = (r, f')" for f f' :: os_file and n r
    using that
    by (cases "events f"; cases "hd (events f)")
       (auto simp: ws_read_def Let_def split: list.splits read_event.splits)
  have br: "M s' \<le> M s" if "buf_read IN_BUF s = (r, s')" for s s' :: "'a wtap_reader" and r
  proof -
    obtain ret f' where w: "ws_read (fd s)
        (if guint_sub (bsize s) (bytes_in_buffer (in_buf s)) = 0 then bsize s
         else guint_sub (bsize s) (bytes_in_buffer (in_buf s))) = (ret, f')"
      by (cases "ws_read (fd s)
        (if guint_sub (bsize s) (bytes_in_buffer (in_buf s)) = 0 then bsize s
         else guint_sub (bsize s) (bytes_in_buffer (in_buf s)))") auto
    from rd[OF w] that w show ?thesis
      by (cases ret)
         (auto simp: M_def buf_read_def get_buf_def set_buf_def buf_reset_def Let_def
               split: if_splits)
  qed
  have fb: "M s' \<le> M s" if "fill_in_buffer s = (r, s')" for s s' :: "'a wtap_reader" and r
    using that br[of s]
    by (auto simp: fill_in_buffer_def split: if_splits prod.splits)
  have "M s1 < M state"
  proof (cases "avail (in_buf state) = 0")
    case True
    obtain r s0 where f: "fill_in_buffer state = (r, s0)" by (cases "fill_in_buffer state") auto
    have "M s0 \<le> M state" using fb[OF f] .
    moreover have "M s1 < M s0"
      using g ch True f
      by (auto simp: GZ_GETC_def M_def in_advance_def guint_sub_def split: if_splits)
    ultimately show ?thesis by simp
  next
    case False
    then show ?thesis
      using g ch by (auto simp: GZ_GETC_def M_def in_advance_def guint_sub_def split: if_splits)
  qed
  then show "(s1, state) \<in> measure (\<lambda>s. avail (in_buf s) + (length (contents (fd s)) - fpos (fd s)))"
    by (simp add: M_def)
qed

subsection \<open>Inflating\<close>

text \<open>
  The block of \<^verbatim>\<open>zlib_read\<close> under \<^verbatim>\<open>#ifdef Z_BLOCK\<close>: the newest bytes of output go
  into the rolling window (\<open>zlib_window_roll\<close>), and a point is added to the fast-seek
  array at the end of a deflate block. \<open>ready\<close> bytes were produced at offset \<open>buf2\<close> of the output buffer;
  \<open>ret\<close> is what \<^verbatim>\<open>inflate\<close> returned and \<open>produced_total\<close> is \<^verbatim>\<open>count - strm->avail_out\<close>.
  With no array attached, \<^verbatim>\<open>zlib_fast_seek_add\<close> dereferences \<^verbatim>\<open>NULL\<close>: no result.
\<close>

definition zlib_window_roll ::
  "zlib_cur_seek_point \<Rightarrow> byte list \<Rightarrow> nat \<Rightarrow> nat \<Rightarrow> zlib_cur_seek_point"
where
  "zlib_window_roll cur ob buf2 ready =
     (if ready < ZLIB_WINSIZE then
        (let left = guint_sub ZLIB_WINSIZE (cur_pos cur);
             c =
               (if ready \<ge> left then
                  (let w1 = memcpy (cur_window cur) (cur_pos cur) (bytes_at ob buf2 left);
                       w2 = (if ready \<noteq> left
                             then memcpy w1 0 (bytes_at ob (buf2 + left) (ready - left))
                             else w1)
                   in cur\<lparr>cur_window := w2, cur_pos := ready - left,
                           cur_have := cur_have cur + ready\<rparr>)
                else
                  cur\<lparr>cur_window := memcpy (cur_window cur) (cur_pos cur) (bytes_at ob buf2 ready),
                       cur_pos := cur_pos cur + ready,
                       cur_have := cur_have cur + ready\<rparr>)
         in if cur_have c \<ge> ZLIB_WINSIZE then c\<lparr>cur_have := ZLIB_WINSIZE\<rparr> else c)
      else
        cur\<lparr>cur_window :=
               memcpy (cur_window cur) 0 (bytes_at ob (buf2 + (ready - ZLIB_WINSIZE)) ZLIB_WINSIZE),
             cur_pos := 0, cur_have := ZLIB_WINSIZE\<rparr>)"

definition zlib_read_window ::
  "zret \<Rightarrow> nat \<Rightarrow> nat \<Rightarrow> nat \<Rightarrow> 'z wtap_reader \<Rightarrow> 'z wtap_reader option"
where
  "zlib_read_window ret ready buf2 produced_total state =
     (case fast_seek_cur state of
        None \<Rightarrow> Some state
      | Some cur \<Rightarrow>
          (let cur1 = zlib_window_roll cur (buf (out_buf state)) buf2 ready;
               s1 = state\<lparr>fast_seek_cur := Some cur1\<rparr>
           in if cur_have cur1 \<ge> ZLIB_WINSIZE \<and> ret \<noteq> Z_STREAM_END
                 \<and> data_type (strm state) AND 128 \<noteq> 0 \<and> \<not> (data_type (strm state) AND 64 \<noteq> 0)
              then
                (case fast_seek state of
                   None \<Rightarrow> None
                 | Some pdata \<Rightarrow>
                     (case zlib_fast_seek_add pdata cur1 (unat (data_type (strm state) AND 7))
                             (raw_pos state - int (avail (in_buf state)))
                             (pos state + int produced_total)
                             (adler (strm state)) (total_out (strm state)) of
                        None \<Rightarrow> None
                      | Some pdata1 \<Rightarrow> Some (s1\<lparr>fast_seek := Some pdata1\<rparr>)))
              else Some s1))"

text \<open>
  One round of the \<^verbatim>\<open>do ... while\<close> loop of \<^verbatim>\<open>zlib_read\<close>: it leaves the loop (a
  \<^verbatim>\<open>break\<close>, or the loop condition is false) with \<^verbatim>\<open>ret\<close>, \<^verbatim>\<open>strm->avail_out\<close> and the
  state, or goes round again with new \<^verbatim>\<open>ret\<close>, \<^verbatim>\<open>avail_out\<close>, \<^verbatim>\<open>buf2\<close> and \<^verbatim>\<open>count2\<close>.
  \<^verbatim>\<open>buf\<close> is \<^verbatim>\<open>state->out.buf\<close> in the only call, so \<^verbatim>\<open>inflate\<close> writes at offset
  \<^verbatim>\<open>count - avail_out\<close> of the output buffer.
\<close>

datatype ('r, 'c) round = Leave 'r | Again 'c

definition zlib_read_round ::
  "'z backend \<Rightarrow> nat \<Rightarrow> zret \<Rightarrow> nat \<Rightarrow> nat \<Rightarrow> nat \<Rightarrow> 'z wtap_reader
     \<Rightarrow> (zret \<times> nat \<times> 'z wtap_reader, zret \<times> nat \<times> nat \<times> nat \<times> 'z wtap_reader) round option"
where
  "zlib_read_round be count ret avail_out buf2 count2 state =
     (let (r, s1) = (if avail (in_buf state) = 0 then fill_in_buffer state else (0, state))
      in if r = - 1 then Some (Leave (ret, avail_out, s1))
         else if avail (in_buf s1) = 0
         then Some (Leave (ret, avail_out, s1\<lparr>err := WTAP_ERR_SHORT_READ, err_info := None\<rparr>))
         else
           (let inp = bytes_at (buf (in_buf s1)) (nxt (in_buf s1)) (avail (in_buf s1));
                (ret1, consumed, produced, strm1) = inflate be (strm s1) inp avail_out;
                avail_out1 = avail_out - length produced;
                s2 = (in_advance consumed s1)
                       \<lparr>strm := strm1,
                        out_buf := (out_buf s1)
                          \<lparr>buf := memcpy (buf (out_buf s1)) (count - avail_out) produced\<rparr>\<rparr>
            in if ret1 = Z_STREAM_ERROR
               then Some (Leave (ret1, avail_out1,
                                 s2\<lparr>err := WTAP_ERR_DECOMPRESS, err_info := msg strm1\<rparr>))
               else if ret1 = Z_NEED_DICT
               then Some (Leave (ret1, avail_out1,
                                 s2\<lparr>err := WTAP_ERR_DECOMPRESS,
                                    err_info := Some ''preset dictionary needed''\<rparr>))
               else if ret1 = Z_MEM_ERROR
               then Some (Leave (ret1, avail_out1, s2\<lparr>err := ERRNO ENOMEM, err_info := None\<rparr>))
               else if ret1 = Z_DATA_ERROR
               then Some (Leave (ret1, avail_out1,
                                 s2\<lparr>err := WTAP_ERR_DECOMPRESS, err_info := msg strm1\<rparr>))
               else
                 (let ready = count2 - avail_out1;
                      s3 = s2\<lparr>strm := (strm s2)
                              \<lparr>adler := crc32_fn be (adler (strm s2))
                                          (bytes_at (buf (out_buf s2)) buf2 ready)\<rparr>\<rparr>
                  in case zlib_read_window ret1 ready buf2 (count - avail_out1) s3 of
                       None \<Rightarrow> None
                     | Some s4 \<Rightarrow>
                         if avail_out1 \<noteq> 0 \<and> ret1 \<noteq> Z_STREAM_END
                         then Some (Again (ret1, avail_out1, buf2 + count2 - avail_out1,
                                           avail_out1, s4))
                         else Some (Leave (ret1, avail_out1, s4)))))"

text \<open>The loop ends only if \<^verbatim>\<open>inflate\<close> keeps making progress.\<close>

partial_function (option) zlib_read_loop ::
  "'z backend \<Rightarrow> nat \<Rightarrow> zret \<Rightarrow> nat \<Rightarrow> nat \<Rightarrow> nat \<Rightarrow> 'z wtap_reader
     \<Rightarrow> (zret \<times> nat \<times> 'z wtap_reader) option"
where
  "zlib_read_loop be count ret avail_out buf2 count2 state =
     (case zlib_read_round be count ret avail_out buf2 count2 state of
        None \<Rightarrow> None
      | Some (Leave res) \<Rightarrow> Some res
      | Some (Again (ret1, avail_out1, buf21, count21, s1)) \<Rightarrow>
          zlib_read_loop be count ret1 avail_out1 buf21 count21 s1)"

text \<open>
  The end of \<^verbatim>\<open>zlib_read\<close>, run when \<^verbatim>\<open>ret == Z_STREAM_END\<close>: the check of the gzip
  trailer.
\<close>

definition zlib_read_trailer :: "'z wtap_reader \<Rightarrow> 'z wtap_reader" where
  "zlib_read_trailer state =
     (let (crc, s1) = gz_next4 state;
          s3 =
            (case crc of
               None \<Rightarrow> s1
             | Some c \<Rightarrow>
                 (let (len, s2) = gz_next4 s1
                  in case len of
                       None \<Rightarrow> s2
                     | Some l \<Rightarrow>
                         if c \<noteq> adler (strm s2) \<and> \<not> dont_check_crc s2
                         then s2\<lparr>err := WTAP_ERR_DECOMPRESS, err_info := Some ''bad CRC''\<rparr>
                         else if unat l \<noteq> total_out (strm s2) mod 2 ^ 32
                         then s2\<lparr>err := WTAP_ERR_DECOMPRESS,
                                 err_info := Some ''length field wrong''\<rparr>
                         else s2))
      in s3\<lparr>compression := UNKNOWN, fast_seek_cur := None\<rparr>)"

definition zlib_read :: "'z backend \<Rightarrow> 'z wtap_reader \<Rightarrow> nat \<Rightarrow> 'z wtap_reader option" where
  "zlib_read be state count =
     (case zlib_read_loop be count Z_OK count 0 count state of
        None \<Rightarrow> None
      | Some (ret, avail_out, s1) \<Rightarrow>
          (let s2 = s1\<lparr>out_buf := (out_buf s1)\<lparr>nxt := 0, avail := count - avail_out\<rparr>\<rparr>
           in if ret = Z_STREAM_END then Some (zlib_read_trailer s2) else Some s2))"

subsection \<open>Detecting the format\<close>

definition on_success ::
  "int \<times> 'z wtap_reader \<Rightarrow> ('z wtap_reader \<Rightarrow> int \<times> 'z wtap_reader) \<Rightarrow> int \<times> 'z wtap_reader"
where
  \<comment> \<open>\<^verbatim>\<open>if (f(state) == -1) return -1;\<close> and then the rest\<close>
  "on_success r k = (if fst r = - 1 then (- 1, snd r) else k (snd r))"

text \<open>
  \<^verbatim>\<open>gz_head\<close> once the bytes 31 and 139 have been read, in two parts: the set-up for
  inflating at its end ("set up for decompression"; \<^verbatim>\<open>crc32(0L, Z_NULL, 0)\<close> is the
  initial checksum 0), and before it the rest of the gzip header.
\<close>

definition gz_head_setup :: "'z backend \<Rightarrow> 'z wtap_reader \<Rightarrow> int \<times> 'z wtap_reader" where
  "gz_head_setup be state =
     (let s12 = state\<lparr>strm := (inflateReset be (strm state))\<lparr>adler := 0\<rparr>,
                      compression := ZLIB, is_compressed := True\<rparr>
      in case fast_seek s12 of
           None \<Rightarrow> (0, s12)
         | Some pdata \<Rightarrow>
             (0, s12\<lparr>fast_seek_cur :=
                        Some \<lparr>cur_window = replicate ZLIB_WINSIZE 0, cur_pos = 0, cur_have = 0\<rparr>,
                      fast_seek :=
                        Some (fast_seek_header pdata (raw_pos s12 - int (avail (in_buf s12)))
                                (pos s12) GZIP_AFTER_HEADER)\<rparr>))"

definition gz_head_gzip :: "'z backend \<Rightarrow> 'z wtap_reader \<Rightarrow> int \<times> 'z wtap_reader" where
  "gz_head_gzip be state =
     (case gz_next1 state of
        (None, s1) \<Rightarrow> (- 1, s1)
      | (Some cm, s1) \<Rightarrow>
          if cm \<noteq> 8
          then (- 1, s1\<lparr>err := WTAP_ERR_DECOMPRESS, err_info := Some ''unknown compression method''\<rparr>)
          else
            (case gz_next1 s1 of
               (None, s2) \<Rightarrow> (- 1, s2)
             | (Some flags, s2) \<Rightarrow>
                 if flags AND 0xe0 \<noteq> 0
                 then (- 1, s2\<lparr>err := WTAP_ERR_DECOMPRESS,
                                err_info := Some ''reserved flag bits set''\<rparr>)
                 else
                   on_success (gz_skipn s2 4) (\<lambda>s3.
                   on_success (gz_skipn s3 1) (\<lambda>s4.
                   on_success (gz_skipn s4 1) (\<lambda>s5.
                   on_success
                     (if flags AND 4 \<noteq> 0 then
                        (case gz_next2 s5 of
                           (None, s6) \<Rightarrow> (- 1, s6)
                         | (Some len, s6) \<Rightarrow> gz_skipn s6 (unat len))
                      else (0, s5)) (\<lambda>s7.
                   on_success (if flags AND 8 \<noteq> 0 then gz_skipzstr s7 else (0, s7)) (\<lambda>s8.
                   on_success (if flags AND 16 \<noteq> 0 then gz_skipzstr s8 else (0, s8)) (\<lambda>s9.
                   on_success
                     (if flags AND 2 \<noteq> 0 then
                        (case gz_next2 s9 of (None, s10) \<Rightarrow> (- 1, s10) | (Some hcrc, s10) \<Rightarrow> (0, s10))
                      else (0, s9)) (gz_head_setup be)))))))))"

text \<open>\<^verbatim>\<open>gz_head\<close> from the test for the zstd magic number on.\<close>

definition gz_head_other :: "'z backend \<Rightarrow> 'z wtap_reader \<Rightarrow> int \<times> 'z wtap_reader" where
  "gz_head_other be state =
     (let ib = buf (in_buf state) in
      if avail (in_buf state) \<ge> 4 \<and> ib ! 0 = 0x28 \<and> ib ! 1 = 0xb5 \<and> ib ! 2 = 0x2f \<and> ib ! 3 = 0xfd
      then
        (case ZSTD_initDStream_fn be (zstd_dctx state) of
           (Some name, d) \<Rightarrow>
             (- 1, state\<lparr>zstd_dctx := d, err := WTAP_ERR_DECOMPRESS, err_info := Some name\<rparr>)
         | (None, d) \<Rightarrow> (0, state\<lparr>zstd_dctx := d, compression := ZSTD, is_compressed := True\<rparr>))
      else if avail (in_buf state) \<ge> 4 \<and> ib ! 0 = 0x04 \<and> ib ! 1 = 0x22 \<and> ib ! 2 = 0x4d
              \<and> ib ! 3 = 0x18
      then (0, state\<lparr>lz4_dctx := LZ4F_resetDecompressionContext_fn be (lz4_dctx state),
                     compression := LZ4, is_compressed := True\<rparr>)
      else
        (let s1 = (case fast_seek state of
                     None \<Rightarrow> state
                   | Some pdata \<Rightarrow>
                       state\<lparr>fast_seek :=
                         Some (fast_seek_header pdata
                                 (raw_pos state - int (avail (in_buf state))
                                    - int (avail (out_buf state)))
                                 (pos state) UNCOMPRESSED)\<rparr>);
             s2 = s1\<lparr>raw := pos s1, out_buf := (out_buf s1)\<lparr>nxt := 0\<rparr>\<rparr>;
             already_read = bytes_in_buffer (in_buf s2);
             s3 = (if already_read \<noteq> 0 then
                     s2\<lparr>out_buf := (out_buf s2)
                           \<lparr>buf := memcpy (buf (out_buf s2)) 0
                                     (bytes_at (buf (in_buf s2)) 0 already_read),
                            avail := already_read\<rparr>,
                        in_buf := buf_reset (in_buf s2)\<rparr>
                   else s2)
         in (0, s3\<lparr>compression := UNCOMPRESSED\<rparr>)))"

text \<open>
  "Ungetting" the first byte moves \<^verbatim>\<open>next\<close> back by one; the source relies on the buffer
  holding more than one byte, so that the second byte was read behind the first.
\<close>

definition gz_head :: "'z backend \<Rightarrow> 'z wtap_reader \<Rightarrow> int \<times> 'z wtap_reader" where
  "gz_head be state =
     (let (r0, s0) = (if avail (in_buf state) = 0 then fill_in_buffer state else (0, state))
      in if r0 = - 1 then (- 1, s0)
         else if avail (in_buf s0) = 0 then (0, s0)
         else if in_byte s0 = 31 then
           (let s1 = in_advance 1 s0;
                (r1, s2) = (if avail (in_buf s1) = 0 then fill_in_buffer s1 else (0, s1))
            in if r1 = - 1 then (- 1, s2)
               else if avail (in_buf s2) \<noteq> 0 then
                 (if in_byte s2 = 139 then gz_head_gzip be (in_advance 1 s2)
                  else gz_head_other be
                         (s2\<lparr>in_buf := (in_buf s2)\<lparr>avail := avail (in_buf s2) + 1,
                                                   nxt := nxt (in_buf s2) - 1\<rparr>\<rparr>))
               else gz_head_other be s2)
         else gz_head_other be s0)"

subsection \<open>Filling the output buffer\<close>

definition shl1 :: "nat \<Rightarrow> nat" where
  \<comment> \<open>\<^verbatim>\<open>size << 1\<close> on a \<^verbatim>\<open>guint\<close>\<close>
  "shl1 n = (2 * n) mod 2 ^ 32"

text \<open>
  The branch of \<^verbatim>\<open>fill_out_buffer\<close> for zstd and for lz4, which differ in the library
  call only; \<open>put\<close> stores the decoder state. \<^verbatim>\<open>assert\<close> aborts: no result.
\<close>

definition fill_out_decoder ::
  "('z \<Rightarrow> nat \<Rightarrow> byte list \<Rightarrow> 'z decoder_result) \<Rightarrow> ('z wtap_reader \<Rightarrow> 'z)
     \<Rightarrow> ('z \<Rightarrow> 'z wtap_reader \<Rightarrow> 'z wtap_reader) \<Rightarrow> 'z wtap_reader
     \<Rightarrow> (int \<times> 'z wtap_reader) option"
where
  "fill_out_decoder f dctx put state =
     (if avail (out_buf state) \<noteq> 0 then None
      else
        (let (r, s1) = (if avail (in_buf state) = 0 then fill_in_buffer state else (0, state))
         in if r = - 1 then Some (- 1, s1)
            else
              (let inp = bytes_at (buf (in_buf s1)) (nxt (in_buf s1)) (avail (in_buf s1));
                   (ret, consumed, produced, d) = decoder_call f (dctx s1) (shl1 (bsize s1)) inp
               in case ret of
                    Inl name \<Rightarrow>
                      Some (- 1, (put d s1)\<lparr>err := WTAP_ERR_DECOMPRESS, err_info := Some name\<rparr>)
                  | Inr v \<Rightarrow>
                      (let s2 = (in_advance consumed (put d s1))
                                  \<lparr>out_buf := \<lparr>buf = memcpy (buf (out_buf s1)) 0 produced,
                                               nxt = 0, avail = length produced\<rparr>\<rparr>
                       in Some (0, if v = 0 then s2\<lparr>compression := UNKNOWN\<rparr> else s2)))))"

definition fill_out_buffer :: "'z backend \<Rightarrow> 'z wtap_reader \<Rightarrow> (int \<times> 'z wtap_reader) option" where
  "fill_out_buffer be state =
     (let (r, s1) = (if compression state = UNKNOWN then gz_head be state else (0, state))
      in if r = - 1 then Some (- 1, s1)
         else if compression state = UNKNOWN \<and> avail (out_buf s1) \<noteq> 0 then Some (0, s1)
         else if compression s1 = UNCOMPRESSED then
           (let (r2, s2) = buf_read OUT_BUF s1 in if r2 < 0 then Some (- 1, s2) else Some (0, s2))
         else if compression s1 = ZLIB then
           (case zlib_read be s1 (shl1 (bsize s1)) of None \<Rightarrow> None | Some s2 \<Rightarrow> Some (0, s2))
         else if compression s1 = ZSTD then
           fill_out_decoder (ZSTD_decompressStream_fn be) zstd_dctx (\<lambda>d s. s\<lparr>zstd_dctx := d\<rparr>) s1
         else if compression s1 = LZ4 then
           fill_out_decoder (LZ4F_decompress_fn be) lz4_dctx (\<lambda>d s. s\<lparr>lz4_dctx := d\<rparr>) s1
         else Some (0, s1))"

partial_function (option) gz_skip ::
  "'z backend \<Rightarrow> int \<Rightarrow> 'z wtap_reader \<Rightarrow> (int \<times> 'z wtap_reader) option"
where
  "gz_skip be len state =
     (if len \<noteq> 0 then
        (if avail (out_buf state) \<noteq> 0 then
           (let n = (if int (avail (out_buf state)) > len then to_guint len
                     else avail (out_buf state))
            in gz_skip be (len - int n)
                 (state\<lparr>out_buf := (out_buf state)\<lparr>avail := guint_sub (avail (out_buf state)) n,
                                                   nxt := nxt (out_buf state) + n\<rparr>,
                        pos := pos state + int n\<rparr>))
         else if err state \<noteq> NO_ERROR then Some (- 1, state)
         else if eof state \<and> avail (in_buf state) = 0 then Some (0, state)
         else
           (case fill_out_buffer be state of
              None \<Rightarrow> None
            | Some (r, s1) \<Rightarrow> if r = - 1 then Some (- 1, s1) else gz_skip be len s1))
      else Some (0, state))"

definition gz_reset :: "'z wtap_reader \<Rightarrow> 'z wtap_reader" where
  "gz_reset state =
     state\<lparr>out_buf := buf_reset (out_buf state), eof := False, compression := UNKNOWN,
           seek_pending := False, err := NO_ERROR, err_info := None, pos := 0,
           in_buf := buf_reset (in_buf state)\<rparr>"

subsection \<open>Opening\<close>

text \<open>
  \<^verbatim>\<open>file_fdopen\<close> on an open descriptor, with the buffer size \<open>want\<close> that it works out from
  \<^verbatim>\<open>GZBUFSIZE\<close>, \<^verbatim>\<open>st_blksize\<close> and the sizes zstd asks for. An allocation that fails makes
  it return \<^verbatim>\<open>NULL\<close>; the model is of the calls that succeed. Fresh buffers hold zeros.
\<close>

definition file_fdopen :: "'z backend \<Rightarrow> os_file \<Rightarrow> nat \<Rightarrow> 'z wtap_reader" where
  "file_fdopen be f want =
     (let start0 = (case ws_lseek64 f 0 SEEK_CUR of Inl e \<Rightarrow> 0 | Inr f1 \<Rightarrow> int (fpos f1))
      in gz_reset
           \<lparr>fd = f, raw_pos = start0, pos = 0, bsize = want,
            in_buf = \<lparr>buf = replicate want 0, nxt = 0, avail = 0\<rparr>,
            out_buf = \<lparr>buf = replicate (shl1 want) 0, nxt = 0, avail = 0\<rparr>,
            eof = False, start = start0, raw = 0, compression = UNKNOWN, is_compressed = False,
            skip = 0, seek_pending = False, err = NO_ERROR, err_info = None,
            strm = \<lparr>adler = 0, total_out = 0, data_type = 0, msg = None,
                    zstate = inflateInit2_fn be\<rparr>,
            dont_check_crc = False, fast_seek = None, fast_seek_cur = None,
            zstd_dctx = ZSTD_createDCtx_fn be,
            lz4_dctx = LZ4F_createDecompressionContext_fn be\<rparr>)"

fun strrchr :: "string \<Rightarrow> char \<Rightarrow> string option" where
  "strrchr [] c = None"
| "strrchr (x # xs) c =
     (case strrchr xs c of
        Some r \<Rightarrow> Some r
      | None \<Rightarrow> if x = c then Some (x # xs) else None)"

definition g_ascii_tolower :: "char \<Rightarrow> char" where
  "g_ascii_tolower c =
     (if (65 :: nat) \<le> of_char c \<and> of_char c \<le> (90 :: nat)
      then char_of (of_char c + (32 :: nat)) else c)"

definition g_ascii_strcasecmp_eq :: "string \<Rightarrow> string \<Rightarrow> bool" where
  \<comment> \<open>\<^verbatim>\<open>g_ascii_strcasecmp(a, b) == 0\<close>\<close>
  "g_ascii_strcasecmp_eq a b = (map g_ascii_tolower a = map g_ascii_tolower b)"

text \<open>\<^verbatim>\<open>file_open\<close>; \<open>opened\<close> is what \<^verbatim>\<open>ws_open\<close> gave for the path (\<open>None\<close> for -1).\<close>

definition file_open ::
  "'z backend \<Rightarrow> string \<Rightarrow> os_file option \<Rightarrow> nat \<Rightarrow> 'z wtap_reader option"
where
  "file_open be path opened want =
     (case opened of
        None \<Rightarrow> None
      | Some f \<Rightarrow>
          (let ft = file_fdopen be f want
           in case strrchr path (CHR ''.'') of
                None \<Rightarrow> Some ft
              | Some suffixp \<Rightarrow>
                  if g_ascii_strcasecmp_eq suffixp ''.caz'' then Some (ft\<lparr>dont_check_crc := True\<rparr>)
                  else Some ft))"

definition file_set_random_access ::
  "'z wtap_reader \<Rightarrow> fast_seek_point list option \<Rightarrow> 'z wtap_reader"
where
  "file_set_random_access stream seek = stream\<lparr>fast_seek := seek\<rparr>"

subsection \<open>Seeking\<close>

definition fast_seek_find :: "'z wtap_reader \<Rightarrow> int \<Rightarrow> fast_seek_point option option" where
  "fast_seek_find file p =
     (case fast_seek file of
        None \<Rightarrow> Some None
      | Some pdata \<Rightarrow> fast_seek_find_loop pdata p None 0 (length pdata))"

definition fast_seek_reset :: "'z wtap_reader \<Rightarrow> 'z wtap_reader" where
  "fast_seek_reset state =
     (case fast_seek_cur state of
        None \<Rightarrow> state
      | Some cur \<Rightarrow>
          if compression state = ZLIB then state\<lparr>fast_seek_cur := Some (cur\<lparr>cur_have := 0\<rparr>)\<rparr>
          else state)"

definition G_MAXINT64 :: int where
  "G_MAXINT64 = 2 ^ 63 - 1"

text \<open>
  \<^verbatim>\<open>file_seek\<close> returns the new position or -1, and writes \<^verbatim>\<open>*err\<close> when it fails: the
  result is the value, what was written to \<^verbatim>\<open>*err\<close> if anything, and the reader. The
  function is cut in four: the seek with a fast-seek point \<open>here\<close> (the body of the
  \<^verbatim>\<open>if\<close> on \<^verbatim>\<open>fast_seek_find\<close>), the part after it, the part from
  \<^verbatim>\<open>file->seek_pending = FALSE\<close> on, and the normalising of \<^verbatim>\<open>whence\<close> before it.
\<close>

type_synonym 'z seek_result = "int \<times> errcode option \<times> 'z wtap_reader"

definition file_seek_fast ::
  "'z backend \<Rightarrow> fast_seek_point \<Rightarrow> int \<Rightarrow> 'z wtap_reader \<Rightarrow> 'z seek_result"
where
  "file_seek_fast be here offset file =
     (let (off, off2) =
            (if fsp_compression here = ZLIB
             then (fsp_in here - (if fsp_bits here \<noteq> 0 then 1 else 0), fsp_out here)
             else if fsp_compression here = GZIP_AFTER_HEADER then (fsp_in here, fsp_out here)
             else (fsp_in here + ((pos file + offset) - fsp_out here), pos file + offset))
      in case ws_lseek64 (fd file) off SEEK_SET of
           Inl e \<Rightarrow> (- 1, Some (ERRNO e), file)
         | Inr fd1 \<Rightarrow>
             (let f1 = fast_seek_reset (file\<lparr>fd := fd1\<rparr>);
                  f2 = f1\<lparr>raw_pos := off, out_buf := buf_reset (out_buf f1), eof := False,
                          seek_pending := False, err := NO_ERROR, err_info := None,
                          in_buf := buf_reset (in_buf f1)\<rparr>;
                  r =
                    (if fsp_compression here = ZLIB then
                       (let f3 = f2\<lparr>strm := (inflateReset be (strm f2))
                                       \<lparr>adler := fsp_adler here,
                                        total_out := unat (fsp_total_out here)\<rparr>\<rparr>;
                            p =
                              (if fsp_bits here \<noteq> 0 then
                                 (let (ret, f4) = GZ_GETC f3
                                  in if ret = - 1
                                     then Inl (- 1,
                                            Some (if err f4 = NO_ERROR then WTAP_ERR_SHORT_READ
                                                  else err f4), f4)
                                     else Inr (f4\<lparr>strm := (strm f4)
                                                 \<lparr>zstate := inflatePrime_fn be (zstate (strm f4))
                                                     (fsp_bits here)
                                                     (drop_bit (8 - fsp_bits here) ret)\<rparr>\<rparr>))
                               else Inr f3)
                        in case p of
                             Inl x \<Rightarrow> Inl x
                           | Inr f5 \<Rightarrow>
                               Inr (f5\<lparr>strm := (strm f5)
                                        \<lparr>zstate := inflateSetDictionary_fn be (zstate (strm f5))
                                            (take ZLIB_WINSIZE (fsp_window here))\<rparr>,
                                       compression := ZLIB\<rparr>))
                     else if fsp_compression here = GZIP_AFTER_HEADER then
                       Inr (f2\<lparr>strm := (inflateReset be (strm f2))\<lparr>adler := 0\<rparr>,
                               compression := ZLIB\<rparr>)
                     else Inr (f2\<lparr>compression := fsp_compression here\<rparr>))
              in case r of
                   Inl x \<Rightarrow> x
                 | Inr f6 \<Rightarrow>
                     (let offset1 = (pos f6 + offset) - off2;
                          f7 = f6\<lparr>pos := off2\<rparr>;
                          f8 = (if offset1 \<noteq> 0 then f7\<lparr>seek_pending := True, skip := offset1\<rparr>
                                else f7)
                      in (pos f8 + offset1, None, f8))))"

definition file_seek_slow :: "int \<Rightarrow> 'z wtap_reader \<Rightarrow> 'z seek_result" where
  "file_seek_slow offset file =
     (if compression file = UNCOMPRESSED \<and> pos file + offset \<ge> raw file
         \<and> (offset < 0 \<or> offset \<ge> int (avail (out_buf file))) \<and> fast_seek file \<noteq> None
      then
        (case ws_lseek64 (fd file) (offset - int (avail (out_buf file))) SEEK_CUR of
           Inl e \<Rightarrow> (- 1, Some (ERRNO e), file)
         | Inr fd1 \<Rightarrow>
             (let f1 = file\<lparr>fd := fd1,
                            raw_pos := raw_pos file + (offset - int (avail (out_buf file))),
                            out_buf := buf_reset (out_buf file), eof := False,
                            seek_pending := False, err := NO_ERROR, err_info := None,
                            in_buf := buf_reset (in_buf file), pos := pos file + offset\<rparr>
              in (pos f1, None, f1)))
      else
        (let r =
               (if offset < 0 then
                  (let offset1 = offset + pos file
                   in if offset1 < 0 then Inl (- 1, Some (ERRNO EINVAL), file)
                      else
                        (case ws_lseek64 (fd file) (start file) SEEK_SET of
                           Inl e \<Rightarrow> Inl (- 1, Some (ERRNO e), file)
                         | Inr fd1 \<Rightarrow>
                             Inr (offset1,
                                  gz_reset ((fast_seek_reset (file\<lparr>fd := fd1\<rparr>))
                                              \<lparr>raw_pos := start file\<rparr>))))
                else Inr (offset, file))
         in case r of
              Inl x \<Rightarrow> x
            | Inr (offset2, f2) \<Rightarrow>
                (let n = (if int (avail (out_buf f2)) > offset2 then to_guint offset2
                          else avail (out_buf f2));
                     f3 = f2\<lparr>out_buf := (out_buf f2)\<lparr>avail := guint_sub (avail (out_buf f2)) n,
                                                     nxt := nxt (out_buf f2) + n\<rparr>,
                             pos := pos f2 + int n\<rparr>;
                     offset3 = offset2 - int n;
                     f4 = (if offset3 \<noteq> 0 then f3\<lparr>seek_pending := True, skip := offset3\<rparr>
                           else f3)
                 in (pos f4 + offset3, None, f4))))"

definition file_seek_offset ::
  "'z backend \<Rightarrow> int \<Rightarrow> 'z wtap_reader \<Rightarrow> 'z seek_result option"
where
  "file_seek_offset be offset file0 =
     (let file = file0\<lparr>seek_pending := False\<rparr>
      in if offset = 0 then Some (pos file, None, file)
         else if offset < 0 \<and> - offset \<le> int (offset_in_buffer (out_buf file)) then
           (let adjustment = to_guint (- offset);
                f1 = file\<lparr>out_buf := (out_buf file)\<lparr>avail := avail (out_buf file) + adjustment,
                                                    nxt := nxt (out_buf file) - adjustment\<rparr>,
                          pos := pos file - int adjustment\<rparr>
            in Some (pos f1, None, f1))
         else if \<not> offset < 0 \<and> offset < int (avail (out_buf file)) then
           (let f1 = file\<lparr>out_buf := (out_buf file)
                            \<lparr>avail := guint_sub (avail (out_buf file)) (to_guint offset),
                             nxt := nxt (out_buf file) + nat offset\<rparr>,
                          pos := pos file + offset\<rparr>
            in Some (pos f1, None, f1))
         else
           (case fast_seek_find file (pos file + offset) of
              None \<Rightarrow> None
            | Some None \<Rightarrow> Some (file_seek_slow offset file)
            | Some (Some here) \<Rightarrow>
                if offset < 0 \<or> offset > SPAN \<or> fsp_compression here = UNCOMPRESSED
                then Some (file_seek_fast be here offset file)
                else Some (file_seek_slow offset file)))"

definition file_seek ::
  "'z backend \<Rightarrow> int \<Rightarrow> whence_t \<Rightarrow> 'z wtap_reader \<Rightarrow> 'z seek_result option"
where
  "file_seek be offset whence file =
     (case whence of
        SEEK_END \<Rightarrow>
          (case gz_skip be G_MAXINT64 file of
             None \<Rightarrow> None
           | Some (r, f1) \<Rightarrow>
               if r = - 1 then Some (- 1, Some (err f1), f1)
               else if offset = 0 then Some (pos f1, None, f1)
               else file_seek_offset be offset f1)
      | SEEK_SET \<Rightarrow> file_seek_offset be (offset - pos file) file
      | SEEK_CUR \<Rightarrow>
          file_seek_offset be (if seek_pending file then offset + skip file else offset) file)"

definition file_tell :: "'z wtap_reader \<Rightarrow> int" where
  "file_tell stream = pos stream + (if seek_pending stream then skip stream else 0)"

definition file_tell_raw :: "'z wtap_reader \<Rightarrow> int" where
  "file_tell_raw stream = raw_pos stream"

subsection \<open>Reading\<close>

text \<open>
  The \<^verbatim>\<open>do ... while (len)\<close> loop of \<^verbatim>\<open>file_read\<close>. \<open>copied\<close> is what \<^verbatim>\<open>memcpy\<close> has put
  into \<^verbatim>\<open>buf\<close> so far (with \<^verbatim>\<open>buf == NULL\<close> these are the bytes thrown away). The result
  is the value returned, the bytes copied and the reader.
\<close>

partial_function (option) file_read_loop ::
  "'z backend \<Rightarrow> nat \<Rightarrow> nat \<Rightarrow> byte list \<Rightarrow> 'z wtap_reader
     \<Rightarrow> (int \<times> byte list \<times> 'z wtap_reader) option"
where
  "file_read_loop be len got copied file =
     (if avail (out_buf file) \<noteq> 0 then
        (let n = (if avail (out_buf file) > len then len else avail (out_buf file));
             copied1 = copied @ bytes_at (buf (out_buf file)) (nxt (out_buf file)) n;
             f1 = file\<lparr>out_buf := (out_buf file)\<lparr>nxt := nxt (out_buf file) + n,
                                                avail := avail (out_buf file) - n\<rparr>,
                       pos := pos file + int n\<rparr>
         in if len - n \<noteq> 0 then file_read_loop be (len - n) (got + n) copied1 f1
            else Some (to_int (got + n), copied1, f1))
      else if err file \<noteq> NO_ERROR then Some (- 1, copied, file)
      else if eof file \<and> avail (in_buf file) = 0 then Some (to_int got, copied, file)
      else
        (case fill_out_buffer be file of
           None \<Rightarrow> None
         | Some (r, f1) \<Rightarrow>
             if r = - 1 then Some (- 1, copied, f1)
             else if len \<noteq> 0 then file_read_loop be len got copied f1
             else Some (to_int got, copied, f1)))"

definition file_read ::
  "'z backend \<Rightarrow> nat \<Rightarrow> 'z wtap_reader \<Rightarrow> (int \<times> byte list \<times> 'z wtap_reader) option"
where
  "file_read be len file =
     (if len = 0 then Some (0, [], file)
      else
        (case (if seek_pending file
               then gz_skip be (skip file) (file\<lparr>seek_pending := False\<rparr>)
               else Some (0, file)) of
           None \<Rightarrow> None
         | Some (r, f1) \<Rightarrow>
             if r = - 1 then Some (- 1, [], f1) else file_read_loop be len 0 [] f1))"

partial_function (option) file_peekc_loop ::
  "'z backend \<Rightarrow> 'z wtap_reader \<Rightarrow> (int \<times> 'z wtap_reader) option"
where
  "file_peekc_loop be file =
     (if avail (out_buf file) \<noteq> 0
      then Some (uint (buf (out_buf file) ! nxt (out_buf file)), file)
      else if err file \<noteq> NO_ERROR then Some (- 1, file)
      else if eof file \<and> avail (in_buf file) = 0 then Some (- 1, file)
      else
        (case fill_out_buffer be file of
           None \<Rightarrow> None
         | Some (r, f1) \<Rightarrow> if r = - 1 then Some (- 1, f1) else file_peekc_loop be f1))"

definition file_peekc :: "'z backend \<Rightarrow> 'z wtap_reader \<Rightarrow> (int \<times> 'z wtap_reader) option" where
  "file_peekc be file =
     (if err file \<noteq> NO_ERROR then Some (- 1, file)
      else if avail (out_buf file) \<noteq> 0
      then Some (uint (buf (out_buf file) ! nxt (out_buf file)), file)
      else
        (case (if seek_pending file
               then gz_skip be (skip file) (file\<lparr>seek_pending := False\<rparr>)
               else Some (0, file)) of
           None \<Rightarrow> None
         | Some (r, f1) \<Rightarrow> if r = - 1 then Some (- 1, f1) else file_peekc_loop be f1))"

definition file_getc :: "'z backend \<Rightarrow> 'z wtap_reader \<Rightarrow> (int \<times> 'z wtap_reader) option" where
  "file_getc be file =
     (if err file \<noteq> NO_ERROR then Some (- 1, file)
      else if avail (out_buf file) \<noteq> 0
      then Some (uint (buf (out_buf file) ! nxt (out_buf file)),
                 file\<lparr>out_buf := (out_buf file)\<lparr>avail := avail (out_buf file) - 1,
                                                nxt := nxt (out_buf file) + 1\<rparr>,
                      pos := pos file + 1\<rparr>)
      else
        (case file_read be 1 file of
           None \<Rightarrow> None
         | Some (ret, copied, f1) \<Rightarrow>
             Some (if ret < 1 then - 1 else uint (copied ! 0), f1)))"

definition file_eof :: "'z wtap_reader \<Rightarrow> bool" where
  "file_eof file = (eof file \<and> avail (in_buf file) = 0 \<and> avail (out_buf file) = 0)"

definition file_error :: "'z wtap_reader \<Rightarrow> errcode \<times> string option" where
  \<comment> \<open>the code returned, and what is stored through \<^verbatim>\<open>err_info\<close> when there is an error\<close>
  "file_error fh = (err fh, if err fh \<noteq> NO_ERROR then err_info fh else None)"

definition file_clearerr :: "'z wtap_reader \<Rightarrow> 'z wtap_reader" where
  "file_clearerr stream = stream\<lparr>err := NO_ERROR, err_info := None, eof := False\<rparr>"

subsection \<open>Frames and invariants\<close>

text \<open>The predicates in which the properties below are stated and proved.\<close>

text \<open>What reading input leaves alone: everything but \<open>fd\<close>, \<open>raw_pos\<close>, the input buffer, \<open>eof\<close>, \<open>err\<close> and \<open>err_info\<close>.\<close>

definition io_in :: "'z wtap_reader \<Rightarrow> 'z wtap_reader \<Rightarrow> bool" where
  "io_in s s' \<longleftrightarrow>
     pos s' = pos s \<and> bsize s' = bsize s \<and> out_buf s' = out_buf s \<and> start s' = start s \<and>
     raw s' = raw s \<and> compression s' = compression s \<and> is_compressed s' = is_compressed s \<and>
     skip s' = skip s \<and> seek_pending s' = seek_pending s \<and> strm s' = strm s \<and>
     dont_check_crc s' = dont_check_crc s \<and> fast_seek s' = fast_seek s \<and>
     fast_seek_cur s' = fast_seek_cur s \<and> zstd_dctx s' = zstd_dctx s \<and> lz4_dctx s' = lz4_dctx s"

text \<open>The fast-seek array, if one is attached, is strictly sorted by \<open>out\<close>.\<close>

definition fast_seek_sorted :: "'z wtap_reader \<Rightarrow> bool" where
  "fast_seek_sorted s =
     (case fast_seek s of None \<Rightarrow> True | Some pdata \<Rightarrow> sorted_wrt (<) (map fsp_out pdata))"

text \<open>The array of \<open>s'\<close> is the array of \<open>s\<close> with entries added at its end (and none is attached or detached).\<close>

definition fast_seek_extends :: "'z wtap_reader \<Rightarrow> 'z wtap_reader \<Rightarrow> bool" where
  "fast_seek_extends s s' =
     (case fast_seek s of
        None \<Rightarrow> fast_seek s' = None
      | Some pdata \<Rightarrow> \<exists>ext. fast_seek s' = Some (pdata @ ext))"

text \<open>What no operation of the reader changes short of \<^verbatim>\<open>file_set_random_access\<close>: the buffer size, \<open>start\<close>, the CRC flag; and the fast-seek array only grows at its end and stays sorted.\<close>

definition fs_frame :: "'z wtap_reader \<Rightarrow> 'z wtap_reader \<Rightarrow> bool" where
  "fs_frame s s' \<longleftrightarrow>
     bsize s' = bsize s \<and> start s' = start s \<and> dont_check_crc s' = dont_check_crc s \<and>
     fast_seek_extends s s' \<and> (fast_seek_sorted s \<longrightarrow> fast_seek_sorted s')"

text \<open>What filling the output buffer leaves alone as well: the position and the pending skip.\<close>

definition fill_frame :: "'z wtap_reader \<Rightarrow> 'z wtap_reader \<Rightarrow> bool" where
  "fill_frame s s' \<longleftrightarrow>
     pos s' = pos s \<and> skip s' = skip s \<and> seek_pending s' = seek_pending s \<and> fs_frame s s'"

text \<open>A result of \<^verbatim>\<open>gz_head\<close>: 0 or -1, and with -1 an error is set and the output buffer is untouched.\<close>

definition head_ok :: "'z wtap_reader \<Rightarrow> int \<times> 'z wtap_reader \<Rightarrow> bool" where
  "head_ok s p \<longleftrightarrow>
     fill_frame s (snd p) \<and> (fst p = 0 \<or> fst p = - 1) \<and>
     (fst p = - 1 \<longrightarrow> err (snd p) \<noteq> NO_ERROR \<and> out_buf (snd p) = out_buf s)"

text \<open>A result of \<^verbatim>\<open>fill_out_buffer\<close>: 0 or -1, and with -1 an error is set and an empty output buffer is still empty.\<close>

definition fill_ok :: "'z wtap_reader \<Rightarrow> int \<times> 'z wtap_reader \<Rightarrow> bool" where
  "fill_ok s p \<longleftrightarrow>
     fill_frame s (snd p) \<and> (fst p = 0 \<or> fst p = - 1) \<and>
     (fst p = - 1 \<longrightarrow> err (snd p) \<noteq> NO_ERROR \<and>
        (avail (out_buf s) = 0 \<longrightarrow> avail (out_buf (snd p)) = 0))"

text \<open>A result of \<^verbatim>\<open>gz_skip\<close> for \<open>len\<close> bytes: at most \<open>len\<close> bytes were skipped; -1 comes with an error and an empty output buffer; 0 comes with all \<open>len\<close> bytes skipped, or at the end of the input.\<close>

definition skip_ok :: "int \<Rightarrow> 'z wtap_reader \<Rightarrow> int \<times> 'z wtap_reader \<Rightarrow> bool" where
  "skip_ok len s p \<longleftrightarrow>
     (let r = fst p; s' = snd p in
      fs_frame s s' \<and> skip s' = skip s \<and> seek_pending s' = seek_pending s \<and>
      pos s \<le> pos s' \<and> pos s' \<le> pos s + len \<and>
      (r = 0 \<or> r = - 1) \<and>
      (r = - 1 \<longrightarrow> err s' \<noteq> NO_ERROR \<and> avail (out_buf s') = 0) \<and>
      (r = 0 \<longrightarrow> pos s' = pos s + len \<or>
           (avail (out_buf s') = 0 \<and> err s' = NO_ERROR \<and> eof s' \<and> avail (in_buf s') = 0)))"

text \<open>A result of the loop of \<^verbatim>\<open>file_read\<close>, entered with \<open>got\<close> bytes copied and \<open>len\<close> to go: \<open>k\<close> more bytes were copied and the position moved by \<open>k\<close>; -1 comes with an error and an empty output buffer; otherwise the value is \<^verbatim>\<open>(int)got\<close>, and fewer than \<open>len\<close> bytes come only at the end of the file.\<close>

definition read_ok ::
  "nat \<Rightarrow> nat \<Rightarrow> byte list \<Rightarrow> 'z wtap_reader \<Rightarrow> int \<times> byte list \<times> 'z wtap_reader \<Rightarrow> bool"
where
  "read_ok len got copied s p \<longleftrightarrow>
     (let ret = fst p; copied' = fst (snd p); s' = snd (snd p) in
      fs_frame s s' \<and> skip s' = skip s \<and> seek_pending s' = seek_pending s \<and>
      (\<exists>k \<le> len. length copied' = length copied + k \<and> pos s' = pos s + int k \<and>
         ((ret = - 1 \<and> err s' \<noteq> NO_ERROR \<and> avail (out_buf s') = 0) \<or>
          (ret = to_int (got + k) \<and> (k = len \<or> (err s' = NO_ERROR \<and> file_eof s'))))))"

subsection \<open>A backend and files for the worked examples\<close>

text \<open>
  The theorems below hold for every backend. Where one is run on a concrete file, the
  decoder is this one: a "deflate" stream is a run of non-zero bytes, each decoded to
  itself, ended by a zero byte; the checksum counts the bytes. The readers are opened with
  the buffer size \<^verbatim>\<open>GZBUFSIZE\<close>, 4096.
\<close>

definition demo_inflate :: "unit \<Rightarrow> byte list \<Rightarrow> nat \<Rightarrow> unit inflate_result" where
  "demo_inflate z inp avail_out =
     (case inp of
        [] \<Rightarrow> \<lparr>ir_ret = Z_BUF_ERROR, ir_consumed = 0, ir_produced = [], ir_data_type = 0,
                ir_msg = None, ir_state = ()\<rparr>
      | b # bs \<Rightarrow>
          if b = 0
          then \<lparr>ir_ret = Z_STREAM_END, ir_consumed = 1, ir_produced = [], ir_data_type = 0,
                ir_msg = None, ir_state = ()\<rparr>
          else \<lparr>ir_ret = Z_OK, ir_consumed = 1, ir_produced = [b], ir_data_type = 0,
                ir_msg = None, ir_state = ()\<rparr>)"

definition demo_decoder :: "unit \<Rightarrow> nat \<Rightarrow> byte list \<Rightarrow> unit decoder_result" where
  "demo_decoder z cap inp =
     \<lparr>dr_ret = Inr 0, dr_consumed = length inp, dr_produced = take cap inp, dr_state = ()\<rparr>"

definition demo_backend :: "unit backend" where
  "demo_backend =
     \<lparr>inflateInit2_fn = (), inflate_fn = demo_inflate, inflateReset_fn = (\<lambda>z. z),
      inflatePrime_fn = (\<lambda>z n v. z), inflateSetDictionary_fn = (\<lambda>z d. z),
      crc32_fn = (\<lambda>c bs. c + of_nat (length bs)),
      ZSTD_createDCtx_fn = (), ZSTD_initDStream_fn = (\<lambda>z. (None, z)),
      ZSTD_decompressStream_fn = demo_decoder,
      LZ4F_createDecompressionContext_fn = (), LZ4F_resetDecompressionContext_fn = (\<lambda>z. z),
      LZ4F_decompress_fn = demo_decoder\<rparr>"

definition demo_file :: "byte list \<Rightarrow> os_file" where
  "demo_file bs = \<lparr>contents = bs, fpos = 0, events = [], seekable = True\<rparr>"

definition demo_point :: "int \<Rightarrow> fast_seek_point" where
  "demo_point p =
     \<lparr>fsp_out = p, fsp_in = p, fsp_compression = UNCOMPRESSED, fsp_bits = 0, fsp_window = [],
      fsp_adler = 0, fsp_total_out = 0\<rparr>"

definition demo_gzip :: "byte list" where
  "demo_gzip = [0x1f, 0x8b, 8, 0, 0, 0, 0, 0, 0, 3, 0x68, 0x69, 0, 9, 9, 9, 9, 2, 0, 0, 0]"

definition demo_trailer_state :: "unit wtap_reader" where
  "demo_trailer_state =
     (file_fdopen demo_backend (demo_file [9, 9, 9, 9, 2, 0, 0, 0]) 4096)
       \<lparr>strm := \<lparr>adler = 2, total_out = 2, data_type = 0, msg = None, zstate = ()\<rparr>,
        dont_check_crc := True\<rparr>"

definition demo_caz_state :: "unit wtap_reader" where
  "demo_caz_state =
     snd (gz_head demo_backend
            (the (file_open demo_backend ''x.caz'' (Some (demo_file demo_gzip)) 4096)))"

definition demo_peeked :: "unit wtap_reader" where
  "demo_peeked =
     snd (the (file_peekc demo_backend
                 (file_fdopen demo_backend (demo_file [0x41, 0x42, 0x43, 0x44, 0x45]) 4096)))"

definition demo_gz_fresh :: "unit wtap_reader" where
  "demo_gz_fresh = file_fdopen demo_backend (demo_file demo_gzip) 4096"

definition demo_gz_read1 :: "unit wtap_reader" where
  "demo_gz_read1 = snd (snd (the (file_read demo_backend 1 demo_gz_fresh)))"

definition demo_gz_read2 :: "unit wtap_reader" where
  "demo_gz_read2 = snd (snd (the (file_read demo_backend 1 demo_gz_read1)))"

definition demo_abc :: "unit wtap_reader" where
  "demo_abc = file_fdopen demo_backend (demo_file [0x41, 0x42, 0x43, 0x44, 0x45]) 4096"

definition demo_abc_seek2 :: "unit wtap_reader" where
  "demo_abc_seek2 = snd (snd (the (file_seek demo_backend 2 SEEK_SET demo_abc)))"

definition demo_abc_seek8 :: "unit wtap_reader" where
  "demo_abc_seek8 = snd (snd (the (file_seek demo_backend 8 SEEK_SET demo_abc)))"

definition demo_gz_peeked :: "unit wtap_reader" where
  "demo_gz_peeked = snd (the (file_peekc demo_backend demo_gz_fresh))"

definition demo_abc_seek3 :: "unit wtap_reader" where
  "demo_abc_seek3 = snd (snd (the (file_seek demo_backend 3 SEEK_SET demo_abc)))"

definition demo_abc_read1 :: "unit wtap_reader" where
  "demo_abc_read1 = snd (snd (the (file_read demo_backend 1 demo_abc)))"

text \<open>
  The reader \<open>s\<close> is in good order in front of the bytes \<open>bs\<close>: no error and no end of
  file so far, every read of the file is a full one, the input buffer has the size
  \<^verbatim>\<open>file->size\<close>, and the bytes still in the input buffer followed by the bytes of the file
  from its offset on are \<open>bs\<close>.
\<close>

definition stream_at :: "'z wtap_reader \<Rightarrow> byte list \<Rightarrow> bool" where
  "stream_at s bs \<longleftrightarrow>
     events (fd s) = [] \<and> err s = NO_ERROR \<and> \<not> eof s \<and> 0 < bsize s \<and> bsize s < 2 ^ 32 \<and>
     length (buf (in_buf s)) = bsize s \<and> nxt (in_buf s) + avail (in_buf s) \<le> bsize s \<and>
     take (avail (in_buf s)) (drop (nxt (in_buf s)) (buf (in_buf s)))
       @ drop (fpos (fd s)) (contents (fd s)) = bs"

definition demo_cm7 :: "unit wtap_reader" where
  "demo_cm7 =
     file_set_random_access (file_fdopen demo_backend (demo_file [0x1f, 0x8b, 7, 0, 0, 0]) 4096) None"

text \<open>
  The readers that the operations of the library produce: opened by \<^verbatim>\<open>file_fdopen\<close> or
  \<^verbatim>\<open>file_open\<close>, and then read from, peeked at, sought in and cleared of errors. The
  caller of \<^verbatim>\<open>file_set_random_access\<close> supplies the fast-seek array, and shares it
  between the readers of one file, so that it may have grown between two calls of one
  reader: the caller attaches what it wants, as long as it is sorted (an empty array is).
\<close>

inductive reachable :: "'z backend \<Rightarrow> 'z wtap_reader \<Rightarrow> bool" for be :: "'z backend" where
  fdopened: "reachable be (file_fdopen be f want)"
| opened: "file_open be path (Some f) want = Some s \<Longrightarrow> reachable be s"
| attached: "reachable be s \<Longrightarrow>
     (case seek of None \<Rightarrow> True | Some pdata \<Rightarrow> sorted_wrt (<) (map fsp_out pdata)) \<Longrightarrow>
     reachable be (file_set_random_access s seek)"
| was_read: "reachable be s \<Longrightarrow> file_read be len s = Some (r, copied, s') \<Longrightarrow> reachable be s'"
| peeked: "reachable be s \<Longrightarrow> file_peekc be s = Some (r, s') \<Longrightarrow> reachable be s'"
| got: "reachable be s \<Longrightarrow> file_getc be s = Some (r, s') \<Longrightarrow> reachable be s'"
| sought: "reachable be s \<Longrightarrow> file_seek be offset whence s = Some (r, e, s') \<Longrightarrow> reachable be s'"
| cleared: "reachable be s \<Longrightarrow> reachable be (file_clearerr s)"

definition demo_abc_ra :: "unit wtap_reader" where
  "demo_abc_ra = file_set_random_access demo_abc (Some [])"

section \<open>Properties\<close>

declare gz_skipzstr.simps [simp del]

subsection \<open>What each operation leaves unchanged\<close>

lemma io_in_refl [simp]: "io_in s s"
  by (simp add: io_in_def)

lemma io_in_trans: "io_in a b \<Longrightarrow> io_in b c \<Longrightarrow> io_in a c"
  by (simp add: io_in_def)

lemma io_in_set_short_read [simp]: "io_in s (set_short_read s') = io_in s s'"
  by (simp add: io_in_def set_short_read_def)

lemma io_in_in_advance [simp]: "io_in s (in_advance n s') = io_in s s'"
  by (simp add: io_in_def in_advance_def)

lemma ws_read_cases:
  obtains (fail) e f' where "ws_read f n = (Inl e, f')"
  | (ok) bs f' where "ws_read f n = (Inr bs, f')"
  by (cases "ws_read f n"; cases "fst (ws_read f n)") auto

lemma buf_read_ret: "buf_read w s = (r, s') \<Longrightarrow> r = 0 \<or> r = - 1"
  by (auto simp: buf_read_def Let_def split: prod.splits sum.splits)

lemma buf_read_in_io: "buf_read IN_BUF s = (r, s') \<Longrightarrow> io_in s s'"
  by (auto simp: buf_read_def Let_def get_buf_def set_buf_def io_in_def
           split: prod.splits sum.splits)

lemma buf_read_err:
  "buf_read w s = (r, s') \<Longrightarrow>
     (r < 0 \<longrightarrow> err s' \<noteq> NO_ERROR) \<and> (\<not> r < 0 \<longrightarrow> err s' = err s \<and> err_info s' = err_info s)"
  by (cases w) (auto simp: buf_read_def Let_def get_buf_def set_buf_def
                     split: prod.splits sum.splits)

lemma fill_in_buffer_io: "fill_in_buffer s = (r, s') \<Longrightarrow> io_in s s'"
  by (auto simp: fill_in_buffer_def split: if_splits prod.splits dest: buf_read_in_io)

lemma fill_in_buffer_ret: "fill_in_buffer s = (r, s') \<Longrightarrow> r = 0 \<or> r = - 1"
  by (auto simp: fill_in_buffer_def split: if_splits prod.splits)

lemma fill_in_buffer_err:
  "fill_in_buffer s = (r, s') \<Longrightarrow>
     (r = - 1 \<longrightarrow> err s' \<noteq> NO_ERROR) \<and> (r \<noteq> - 1 \<longrightarrow> err s' = err s \<and> err_info s' = err_info s)"
  by (auto simp: fill_in_buffer_def split: if_splits prod.splits dest: buf_read_err buf_read_ret)

lemma GZ_GETC_io: "GZ_GETC s = (ch, s') \<Longrightarrow> io_in s s'"
  by (auto simp: GZ_GETC_def split: if_splits prod.splits dest: fill_in_buffer_io)

lemma GZ_GETC_err:
  "GZ_GETC s = (ch, s') \<Longrightarrow> ch \<noteq> - 1 \<Longrightarrow> err s' = err s \<and> err_info s' = err_info s"
  by (auto simp: GZ_GETC_def in_advance_def split: if_splits prod.splits dest: fill_in_buffer_err)

lemma GZ_GETC_range: "GZ_GETC s = (ch, s') \<Longrightarrow> ch = - 1 \<or> (0 \<le> ch \<and> ch < 256)"
proof -
  have "uint (b :: byte) < 256" for b
    using uint_bounded[of b] by simp
  then show "GZ_GETC s = (ch, s') \<Longrightarrow> ch = - 1 \<or> (0 \<le> ch \<and> ch < 256)"
    by (auto simp: GZ_GETC_def split: if_splits prod.splits)
qed

lemma set_short_read_err [simp]: "err (set_short_read s) \<noteq> NO_ERROR"
  by (simp add: set_short_read_def)

lemma gz_next1_io: "gz_next1 s = (r, s') \<Longrightarrow> io_in s s'"
  by (auto simp: gz_next1_def split: if_splits prod.splits dest: GZ_GETC_io)

lemma gz_next1_err:
  "gz_next1 s = (r, s') \<Longrightarrow>
     (r = None \<longrightarrow> err s' \<noteq> NO_ERROR) \<and> (r \<noteq> None \<longrightarrow> err s' = err s \<and> err_info s' = err_info s)"
  by (auto simp: gz_next1_def split: if_splits prod.splits dest: GZ_GETC_err)

lemma gz_next2_io: "gz_next2 s = (r, s') \<Longrightarrow> io_in s s'"
  by (auto simp: gz_next2_def split: if_splits prod.splits dest!: GZ_GETC_io intro: io_in_trans)

lemma gz_next2_err:
  "gz_next2 s = (r, s') \<Longrightarrow> r = None \<Longrightarrow> err s' \<noteq> NO_ERROR"
  by (auto simp: gz_next2_def split: if_splits prod.splits)

lemma gz_next4_io: "gz_next4 s = (r, s') \<Longrightarrow> io_in s s'"
  by (auto simp: gz_next4_def split: if_splits prod.splits dest!: GZ_GETC_io)
     (simp_all add: io_in_def)

lemma gz_skipn_io: "gz_skipn s n = (r, s') \<Longrightarrow> io_in s s'"
proof (induction n arbitrary: s)
  case 0
  then show ?case by simp
next
  case (Suc n)
  obtain ch s1 where g: "GZ_GETC s = (ch, s1)" by (cases "GZ_GETC s") auto
  have a: "io_in s s1" using g by (rule GZ_GETC_io)
  show ?case
  proof (cases "ch = - 1")
    case True
    with Suc.prems g a show ?thesis by auto
  next
    case False
    with Suc.prems g have "gz_skipn s1 n = (r, s')" by simp
    then have "io_in s1 s'" by (rule Suc.IH)
    with a show ?thesis by (rule io_in_trans)
  qed
qed

lemma gz_skipn_err: "gz_skipn s n = (r, s') \<Longrightarrow> r = - 1 \<Longrightarrow> err s' \<noteq> NO_ERROR"
  by (induction n arbitrary: s) (auto split: if_splits prod.splits)

lemma gz_skipzstr_io: "gz_skipzstr s = (r, s') \<Longrightarrow> io_in s s'"
proof (induction s rule: gz_skipzstr.induct)
  case (1 state)
  obtain ch s1 where g: "GZ_GETC state = (ch, s1)" by (cases "GZ_GETC state") auto
  have a: "io_in state s1" using g by (rule GZ_GETC_io)
  show ?case
  proof (cases "ch > 0")
    case True
    with "1.prems" g have "gz_skipzstr s1 = (r, s')"
      by (subst (asm) gz_skipzstr.simps) simp
    with "1.IH"[OF _ _ True] g have "io_in s1 s'" by simp
    with a show ?thesis by (rule io_in_trans)
  next
    case False
    with "1.prems" g a show ?thesis
      by (subst (asm) gz_skipzstr.simps) (auto split: if_splits)
  qed
qed

lemma gz_skipzstr_err: "gz_skipzstr s = (r, s') \<Longrightarrow> r = - 1 \<Longrightarrow> err s' \<noteq> NO_ERROR"
proof (induction s rule: gz_skipzstr.induct)
  case (1 state)
  obtain ch s1 where g: "GZ_GETC state = (ch, s1)" by (cases "GZ_GETC state") auto
  show ?case
  proof (cases "ch > 0")
    case True
    with "1.prems" g have "gz_skipzstr s1 = (r, s')"
      by (subst (asm) gz_skipzstr.simps) simp
    with "1.IH"[OF _ _ True] g "1.prems" show ?thesis by simp
  next
    case False
    with "1.prems" g show ?thesis
      by (subst (asm) gz_skipzstr.simps) (auto split: if_splits)
  qed
qed

lemma fast_seek_extends_refl [simp]: "fast_seek_extends s s"
  by (simp add: fast_seek_extends_def split: option.splits)

lemma fast_seek_extends_trans:
  "fast_seek_extends a b \<Longrightarrow> fast_seek_extends b c \<Longrightarrow> fast_seek_extends a c"
  by (auto simp: fast_seek_extends_def split: option.splits)

lemma fast_seek_extends_same: "fast_seek s' = fast_seek s \<Longrightarrow> fast_seek_extends s s'"
  by (simp add: fast_seek_extends_def split: option.splits)

lemma fs_frame_refl [simp]: "fs_frame s s"
  by (simp add: fs_frame_def)

lemma fs_frame_trans: "fs_frame a b \<Longrightarrow> fs_frame b c \<Longrightarrow> fs_frame a c"
  by (auto simp: fs_frame_def intro: fast_seek_extends_trans)

lemma fill_frame_refl [simp]: "fill_frame s s"
  by (simp add: fill_frame_def)

lemma fill_frame_trans: "fill_frame a b \<Longrightarrow> fill_frame b c \<Longrightarrow> fill_frame a c"
  by (auto simp: fill_frame_def intro: fs_frame_trans)

lemma io_in_fill_frame: "io_in s s' \<Longrightarrow> fill_frame s s'"
  by (simp add: io_in_def fill_frame_def fs_frame_def fast_seek_extends_same fast_seek_sorted_def)

lemma fast_seek_header_cases:
  "fast_seek_header pdata in_pos out_pos c = pdata \<or>
   (\<exists>v. fast_seek_header pdata in_pos out_pos c = pdata @ [v] \<and> fsp_out v = out_pos \<and>
        (pdata = [] \<or> fsp_out (last pdata) < out_pos))"
  by (cases "pdata = []") (auto simp: fast_seek_header_def Let_def last_conv_nth)

lemma sorted_snoc_last:
  "sorted_wrt (<) (map fsp_out pdata) \<Longrightarrow> pdata = [] \<or> fsp_out (last pdata) < fsp_out v \<Longrightarrow>
     sorted_wrt (<) (map fsp_out (pdata @ [v]))"
proof (cases "pdata = []")
  case True
  then show ?thesis by simp
next
  case False
  assume srt: "sorted_wrt (<) (map fsp_out pdata)"
    and "pdata = [] \<or> fsp_out (last pdata) < fsp_out v"
  with False have lt: "fsp_out (last pdata) < fsp_out v" by simp
  have "fsp_out e < fsp_out v" if "e \<in> set pdata" for e
  proof -
    from that obtain k where k: "k < length pdata" "e = pdata ! k" by (auto simp: in_set_conv_nth)
    have l: "last pdata = pdata ! (length pdata - 1)" using False by (simp add: last_conv_nth)
    show ?thesis
    proof (cases "k = length pdata - 1")
      case True
      with k l lt show ?thesis by simp
    next
      case False
      with k have "k < length pdata - 1" by simp
      with srt k have "fsp_out (pdata ! k) < fsp_out (pdata ! (length pdata - 1))"
        by (simp add: sorted_wrt_iff_nth_less)
      with k l lt show ?thesis by simp
    qed
  qed
  with srt show ?thesis by (auto simp: sorted_wrt_append)
qed

lemma fast_seek_header_sorted:
  assumes srt: "sorted_wrt (<) (map fsp_out pdata)"
  shows "sorted_wrt (<) (map fsp_out (fast_seek_header pdata in_pos out_pos c))"
proof -
  from fast_seek_header_cases[of pdata in_pos out_pos c]
  consider "fast_seek_header pdata in_pos out_pos c = pdata"
    | v where "fast_seek_header pdata in_pos out_pos c = pdata @ [v]" "fsp_out v = out_pos"
        "pdata = [] \<or> fsp_out (last pdata) < out_pos"
    by blast
  then show ?thesis
  proof cases
    case 1
    then show ?thesis using srt by simp
  next
    case 2
    then have lt: "pdata = [] \<or> fsp_out (last pdata) < fsp_out v" by simp
    show ?thesis unfolding 2(1) by (rule sorted_snoc_last[OF srt lt])
  qed
qed

lemma zlib_fast_seek_add_cases:
  "zlib_fast_seek_add pdata point bits in_pos out_pos a t = Some pdata' \<Longrightarrow>
     pdata \<noteq> [] \<and>
     (pdata' = pdata \<or>
      (\<exists>v. pdata' = pdata @ [v] \<and> fsp_out v = out_pos \<and> fsp_out (last pdata) + SPAN < out_pos))"
  by (cases "pdata = []")
     (auto simp: zlib_fast_seek_add_def Let_def last_conv_nth split: if_splits)

lemma zlib_fast_seek_add_sorted:
  assumes "zlib_fast_seek_add pdata point bits in_pos out_pos a t = Some pdata'"
    and srt: "sorted_wrt (<) (map fsp_out pdata)"
  shows "sorted_wrt (<) (map fsp_out pdata')"
proof -
  from zlib_fast_seek_add_cases[OF assms(1)]
  consider "pdata' = pdata"
    | v where "pdata' = pdata @ [v]" "fsp_out v = out_pos" "fsp_out (last pdata) + SPAN < out_pos"
    by blast
  then show ?thesis
  proof cases
    case 1
    then show ?thesis using srt by simp
  next
    case 2
    then have lt: "pdata = [] \<or> fsp_out (last pdata) < fsp_out v" by (simp add: SPAN_def)
    show ?thesis unfolding 2(1) by (rule sorted_snoc_last[OF srt lt])
  qed
qed

lemma on_success_head_ok:
  assumes "io_in s (snd r)" and "fst r = - 1 \<longrightarrow> err (snd r) \<noteq> NO_ERROR"
    and "\<And>s1. io_in s s1 \<Longrightarrow> head_ok s (k s1)"
  shows "head_ok s (on_success r k)"
  using assms by (auto simp: on_success_def head_ok_def io_in_fill_frame io_in_def)

lemma fast_seek_header_ext: "\<exists>ext. fast_seek_header pdata in_pos out_pos c = pdata @ ext"
  using fast_seek_header_cases[of pdata in_pos out_pos c] by auto

lemma gz_skipn_snd_io: "io_in s a \<Longrightarrow> io_in s (snd (gz_skipn a n))"
  by (cases "gz_skipn a n") (auto dest: gz_skipn_io intro: io_in_trans)

lemma gz_skipn_snd_err: "fst (gz_skipn a n) = - 1 \<longrightarrow> err (snd (gz_skipn a n)) \<noteq> NO_ERROR"
  by (cases "gz_skipn a n") (auto dest: gz_skipn_err)

lemma gz_skipzstr_snd_io: "io_in s a \<Longrightarrow> io_in s (snd (gz_skipzstr a))"
  by (cases "gz_skipzstr a") (auto dest: gz_skipzstr_io intro: io_in_trans)

lemma gz_skipzstr_snd_err: "fst (gz_skipzstr a) = - 1 \<longrightarrow> err (snd (gz_skipzstr a)) \<noteq> NO_ERROR"
  by (cases "gz_skipzstr a") (auto dest: gz_skipzstr_err)

lemma gz_next2_skipn_io:
  "io_in s a \<Longrightarrow>
     io_in s (snd (case gz_next2 a of (None, s6) \<Rightarrow> (- 1, s6)
                   | (Some len, s6) \<Rightarrow> gz_skipn s6 (unat len)))"
  by (cases "gz_next2 a")
     (auto split: option.splits dest!: gz_next2_io intro: io_in_trans gz_skipn_snd_io)

lemma gz_next2_skipn_err:
  "fst (case gz_next2 a of (None, s6) \<Rightarrow> (- 1, s6) | (Some len, s6) \<Rightarrow> gz_skipn s6 (unat len))
     = - 1 \<longrightarrow>
   err (snd (case gz_next2 a of (None, s6) \<Rightarrow> (- 1, s6)
             | (Some len, s6) \<Rightarrow> gz_skipn s6 (unat len))) \<noteq> NO_ERROR"
  using gz_skipn_snd_err
  by (cases "gz_next2 a") (auto split: option.splits dest: gz_next2_err)

lemma gz_next2_drop_io:
  "io_in s a \<Longrightarrow>
     io_in s (snd (case gz_next2 a of (None, s10) \<Rightarrow> (- 1, s10)
                   | (Some hcrc, s10) \<Rightarrow> (0, s10)))"
  by (cases "gz_next2 a") (auto split: option.splits dest!: gz_next2_io intro: io_in_trans)

lemma gz_next2_drop_err:
  "fst (case gz_next2 a of (None, s10) \<Rightarrow> (- 1, s10) | (Some hcrc, s10) \<Rightarrow> (0 :: int, s10))
     = - 1 \<longrightarrow>
   err (snd (case gz_next2 a of (None, s10) \<Rightarrow> (- 1 :: int, s10)
             | (Some hcrc, s10) \<Rightarrow> (0, s10))) \<noteq> NO_ERROR"
  by (cases "gz_next2 a") (auto split: option.splits dest: gz_next2_err)

lemma gz_head_setup_ok: "io_in s s11 \<Longrightarrow> head_ok s (gz_head_setup be s11)"
  using fast_seek_header_ext fast_seek_header_sorted
  by (auto simp: gz_head_setup_def head_ok_def fill_frame_def fs_frame_def io_in_def Let_def
        fast_seek_extends_def fast_seek_sorted_def split: option.splits)

lemma gz_head_gzip_ok:
  assumes a: "io_in s a"
  shows "head_ok s (gz_head_gzip be a)"
proof -
  obtain r1 s1 where n1: "gz_next1 a = (r1, s1)" by (cases "gz_next1 a") auto
  have i1: "io_in s s1" using a gz_next1_io[OF n1] by (rule io_in_trans)
  show ?thesis
  proof (cases r1)
    case None
    with n1 i1 gz_next1_err[OF n1] show ?thesis
      by (simp add: gz_head_gzip_def head_ok_def io_in_fill_frame) (simp add: io_in_def)
  next
    case (Some cm)
    note cm = this
    show ?thesis
    proof (cases "cm \<noteq> 8")
      case True
      with n1 i1 cm show ?thesis
        by (simp add: gz_head_gzip_def head_ok_def)
           (simp add: io_in_def fill_frame_def fs_frame_def fast_seek_extends_same fast_seek_sorted_def)
    next
      case False
      note cm8 = this
      obtain r2 s2 where n2: "gz_next1 s1 = (r2, s2)" by (cases "gz_next1 s1") auto
      have i2: "io_in s s2" using i1 gz_next1_io[OF n2] by (rule io_in_trans)
      show ?thesis
      proof (cases r2)
        case None
        with n1 n2 cm cm8 i2 gz_next1_err[OF n2] show ?thesis
          by (simp add: gz_head_gzip_def head_ok_def io_in_fill_frame) (simp add: io_in_def)
      next
        case (Some flags)
        note fl = this
        show ?thesis
        proof (cases "flags AND 0xe0 \<noteq> 0")
          case True
          with n1 n2 cm cm8 fl i2 show ?thesis
            by (simp add: gz_head_gzip_def head_ok_def)
               (simp add: io_in_def fill_frame_def fs_frame_def fast_seek_extends_same fast_seek_sorted_def)
        next
          case False
          with n1 n2 cm cm8 fl show ?thesis
            apply (simp add: gz_head_gzip_def del: gz_skipn.simps)
            apply (intro on_success_head_ok gz_head_setup_ok gz_skipn_snd_io i2)
            apply (auto intro: gz_skipn_snd_io gz_skipzstr_snd_io gz_next2_skipn_io gz_next2_drop_io
                        simp: gz_skipn_snd_err gz_skipzstr_snd_err gz_next2_skipn_err gz_next2_drop_err
                        simp del: gz_skipn.simps)
            done
        qed
      qed
    qed
  qed
qed

lemma gz_head_other_ok:
  assumes a: "io_in s a"
  shows "head_ok s (gz_head_other be a)"
proof -
  have ext: "\<exists>ext. fast_seek_header pdata ip po c = pdata @ ext" for pdata ip po c
    by (rule fast_seek_header_ext)
  show ?thesis
    using a ext fast_seek_header_sorted
    by (auto simp: gz_head_other_def head_ok_def fill_frame_def fs_frame_def io_in_def Let_def
          fast_seek_extends_def fast_seek_sorted_def split: option.splits prod.splits)
qed

lemma fill_in_buffer_snd_io: "io_in s a \<Longrightarrow> io_in s (snd (fill_in_buffer a))"
  by (cases "fill_in_buffer a") (auto dest: fill_in_buffer_io intro: io_in_trans)

lemma gz_head_ok: "head_ok s (gz_head be s)"
proof -
  obtain r0 s0 where f0: "(if avail (in_buf s) = 0 then fill_in_buffer s else (0, s)) = (r0, s0)"
    by (cases "if avail (in_buf s) = 0 then fill_in_buffer s else (0, s)") auto
  have i0: "io_in s s0" using f0 by (auto split: if_splits dest: fill_in_buffer_io)
  have e0: "r0 = - 1 \<longrightarrow> err s0 \<noteq> NO_ERROR"
    using f0 by (auto split: if_splits dest: fill_in_buffer_err)
  have io_ok: "head_ok s (x, t)" if "io_in s t" "x = - 1 \<longrightarrow> err t \<noteq> NO_ERROR" "x = 0 \<or> x = - 1"
    for x t
    using that by (auto simp: head_ok_def io_in_fill_frame) (simp_all add: io_in_def)
  obtain r1 s2 where f1: "(if avail (in_buf (in_advance 1 s0)) = 0
          then fill_in_buffer (in_advance 1 s0) else (0, in_advance 1 s0)) = (r1, s2)"
    by (cases "if avail (in_buf (in_advance 1 s0)) = 0
          then fill_in_buffer (in_advance 1 s0) else (0, in_advance 1 s0)") auto
  have i1: "io_in (in_advance 1 s0) s2" using f1 by (auto split: if_splits dest: fill_in_buffer_io)
  have i2: "io_in s s2" using i0 i1 by (simp add: io_in_def in_advance_def)
  have e1: "r1 = - 1 \<longrightarrow> err s2 \<noteq> NO_ERROR"
    using f1 by (auto split: if_splits dest: fill_in_buffer_err)
  have unget: "io_in s (s2\<lparr>in_buf := b\<rparr>)" for b using i2 by (simp add: io_in_def)
  show ?thesis
    unfolding gz_head_def f0 Let_def prod.case f1
    using io_ok[OF i0] io_ok[OF i2] e0 e1 gz_head_other_ok[OF i0] gz_head_other_ok[OF i2]
      gz_head_other_ok[OF unget] gz_head_gzip_ok[of s "in_advance 1 s2"] i2
    by (auto split: if_splits)
qed

lemma zlib_read_window_ok:
  assumes "zlib_read_window ret ready buf2 tot s = Some s'"
  shows "fill_frame s s' \<and> err s' = err s \<and> err_info s' = err_info s \<and> out_buf s' = out_buf s \<and>
         in_buf s' = in_buf s \<and> compression s' = compression s \<and> eof s' = eof s"
proof (cases "fast_seek_cur s")
  case None
  with assms show ?thesis by (simp add: zlib_read_window_def)
next
  case (Some cur)
  have ext: "\<exists>ext. pdata' = pdata @ ext"
    if "zlib_fast_seek_add pdata c b i p a t = Some pdata'" for pdata pdata' c b i p a t
    using zlib_fast_seek_add_cases[OF that] by auto
  show ?thesis
    using assms Some
    by (auto simp: zlib_read_window_def Let_def fill_frame_def fs_frame_def fast_seek_extends_def
          fast_seek_sorted_def split: if_splits option.splits
          dest: ext zlib_fast_seek_add_sorted)
qed

lemma fill_frame_updates [simp]:
  "fill_frame s (s'\<lparr>fd := a1\<rparr>) = fill_frame s s'"
  "fill_frame s (s'\<lparr>raw_pos := a2\<rparr>) = fill_frame s s'"
  "fill_frame s (s'\<lparr>in_buf := a3\<rparr>) = fill_frame s s'"
  "fill_frame s (s'\<lparr>out_buf := a4\<rparr>) = fill_frame s s'"
  "fill_frame s (s'\<lparr>eof := a5\<rparr>) = fill_frame s s'"
  "fill_frame s (s'\<lparr>raw := a6\<rparr>) = fill_frame s s'"
  "fill_frame s (s'\<lparr>compression := a7\<rparr>) = fill_frame s s'"
  "fill_frame s (s'\<lparr>is_compressed := a8\<rparr>) = fill_frame s s'"
  "fill_frame s (s'\<lparr>err := a9\<rparr>) = fill_frame s s'"
  "fill_frame s (s'\<lparr>err_info := a10\<rparr>) = fill_frame s s'"
  "fill_frame s (s'\<lparr>strm := a11\<rparr>) = fill_frame s s'"
  "fill_frame s (s'\<lparr>fast_seek_cur := a12\<rparr>) = fill_frame s s'"
  "fill_frame s (s'\<lparr>zstd_dctx := a13\<rparr>) = fill_frame s s'"
  "fill_frame s (s'\<lparr>lz4_dctx := a14\<rparr>) = fill_frame s s'"
  by (simp_all add: fill_frame_def fs_frame_def fast_seek_extends_def fast_seek_sorted_def split: option.splits)

lemma fill_frame_in_advance [simp]: "fill_frame s (in_advance n s') = fill_frame s s'"
  by (simp add: in_advance_def)

lemma zlib_read_round_frame:
  assumes "zlib_read_round be count ret ao buf2 count2 s = Some rr"
  shows "case rr of Leave (r, a, s') \<Rightarrow> fill_frame s s'
         | Again (r, a, b, c, s') \<Rightarrow> fill_frame s s'"
proof -
  obtain r s1 where f: "(if avail (in_buf s) = 0 then fill_in_buffer s else (0, s)) = (r, s1)"
    by (cases "if avail (in_buf s) = 0 then fill_in_buffer s else (0, s)") auto
  have "io_in s s1" using f by (auto split: if_splits dest: fill_in_buffer_io)
  then have fr: "fill_frame s s1" by (rule io_in_fill_frame)
  show ?thesis
  proof (cases "r = - 1 \<or> avail (in_buf s1) = 0")
    case True
    with assms fr show ?thesis
      unfolding zlib_read_round_def f Let_def prod.case by (auto split: if_splits)
  next
    case False
    obtain ret1 consumed produced strm1
      where i: "inflate be (strm s1) (bytes_at (buf (in_buf s1)) (nxt (in_buf s1)) (avail (in_buf s1))) ao
                 = (ret1, consumed, produced, strm1)"
      by (cases "inflate be (strm s1) (bytes_at (buf (in_buf s1)) (nxt (in_buf s1)) (avail (in_buf s1))) ao")
         auto
    define s2 where "s2 = (in_advance consumed s1)
                       \<lparr>strm := strm1,
                        out_buf := (out_buf s1)
                          \<lparr>buf := memcpy (buf (out_buf s1)) (count - ao) produced\<rparr>\<rparr>"
    have f2: "fill_frame s s2" using fr by (simp add: s2_def)
    show ?thesis
    proof (cases "ret1 = Z_STREAM_ERROR \<or> ret1 = Z_NEED_DICT \<or> ret1 = Z_MEM_ERROR \<or> ret1 = Z_DATA_ERROR")
      case True
      with assms False f2 show ?thesis
        unfolding zlib_read_round_def f Let_def prod.case i s2_def[symmetric]
        by (auto split: if_splits)
    next
      case ok: False
      define s3 where "s3 = s2\<lparr>strm := (strm s2)
                              \<lparr>adler := crc32_fn be (adler (strm s2))
                                  (bytes_at (buf (out_buf s2)) buf2 (count2 - (ao - length produced)))\<rparr>\<rparr>"
      have f3: "fill_frame s s3" using f2 by (simp add: s3_def)
      from assms False ok obtain s4
        where w: "zlib_read_window ret1 (count2 - (ao - length produced)) buf2
                    (count - (ao - length produced)) s3 = Some s4"
          and rr: "rr = (if ao - length produced \<noteq> 0 \<and> ret1 \<noteq> Z_STREAM_END
                         then Again (ret1, ao - length produced, buf2 + count2 - (ao - length produced),
                                     ao - length produced, s4)
                         else Leave (ret1, ao - length produced, s4))"
        unfolding zlib_read_round_def f Let_def prod.case i s2_def[symmetric] s3_def[symmetric]
        by (simp split: option.splits if_splits)
      have "fill_frame s3 s4" using zlib_read_window_ok[OF w] by simp
      with f3 have "fill_frame s s4" by (rule fill_frame_trans)
      then show ?thesis by (simp add: rr)
    qed
  qed
qed

lemma zlib_read_loop_frame:
  assumes "zlib_read_loop be count ret ao buf2 count2 s = Some res"
  shows "fill_frame s (snd (snd res))"
proof (rule zlib_read_loop.raw_induct[where P = "\<lambda>be count ret ao buf2 count2 s res.
          fill_frame s (snd (snd res))", OF _ assms])
  fix loop :: "'a backend \<Rightarrow> nat \<Rightarrow> zret \<Rightarrow> nat \<Rightarrow> nat \<Rightarrow> nat \<Rightarrow> 'a wtap_reader
                 \<Rightarrow> (zret \<times> nat \<times> 'a wtap_reader) option"
    and be count ret ao buf2 count2 s res
  assume IH: "\<And>be count ret ao buf2 count2 s res.
                loop be count ret ao buf2 count2 s = Some res \<Longrightarrow> fill_frame s (snd (snd res))"
    and body: "(case zlib_read_round be count ret ao buf2 count2 s of
                  None \<Rightarrow> None
                | Some (Leave res) \<Rightarrow> Some res
                | Some (Again (ret1, avail_out1, buf21, count21, s1)) \<Rightarrow>
                    loop be count ret1 avail_out1 buf21 count21 s1) = Some res"
  from body obtain rr where rr: "zlib_read_round be count ret ao buf2 count2 s = Some rr"
    by (auto split: option.splits)
  note fr = zlib_read_round_frame[OF rr]
  show "fill_frame s (snd (snd res))"
  proof (cases rr)
    case (Leave x)
    with body rr fr show ?thesis by (auto split: prod.splits)
  next
    case (Again y)
    obtain r1 a1 b1 c1 s1 where y: "y = (r1, a1, b1, c1, s1)" by (cases y) auto
    with Again body rr have "loop be count r1 a1 b1 c1 s1 = Some res" by simp
    then have "fill_frame s1 (snd (snd res))" by (rule IH)
    moreover have "fill_frame s s1" using fr Again y by simp
    ultimately show ?thesis by (rule fill_frame_trans[rotated])
  qed
qed

lemma zlib_read_trailer_frame: "fill_frame s (zlib_read_trailer s)"
proof -
  obtain crc s1 where a: "gz_next4 s = (crc, s1)" by (cases "gz_next4 s") auto
  obtain len s2 where b: "gz_next4 s1 = (len, s2)" by (cases "gz_next4 s1") auto
  have f1: "fill_frame s s1" using gz_next4_io[OF a] by (rule io_in_fill_frame)
  have "fill_frame s1 s2" using gz_next4_io[OF b] by (rule io_in_fill_frame)
  with f1 have f2: "fill_frame s s2" by (rule fill_frame_trans)
  show ?thesis
    using f1 f2 by (simp add: zlib_read_trailer_def a b Let_def split: option.splits)
qed

lemma zlib_read_frame: "zlib_read be s count = Some s' \<Longrightarrow> fill_frame s s'"
proof -
  assume z: "zlib_read be s count = Some s'"
  then obtain ret ao s1 where l: "zlib_read_loop be count Z_OK count 0 count s = Some (ret, ao, s1)"
    by (auto simp: zlib_read_def split: option.splits)
  have f1: "fill_frame s s1" using zlib_read_loop_frame[OF l] by simp
  define s2 where "s2 = s1\<lparr>out_buf := (out_buf s1)\<lparr>nxt := 0, avail := count - ao\<rparr>\<rparr>"
  have f2: "fill_frame s s2" using f1 by (simp add: s2_def)
  have "fill_frame s2 (zlib_read_trailer s2)" by (rule zlib_read_trailer_frame)
  with f2 have f3: "fill_frame s (zlib_read_trailer s2)" by (rule fill_frame_trans)
  from z l f2 f3 show ?thesis
    by (auto simp: zlib_read_def Let_def s2_def split: if_splits)
qed

lemma fill_out_decoder_ok:
  assumes "fill_out_decoder f dctx put s = Some p"
    and put: "\<And>d t. fill_frame s (put d t) = fill_frame s t"
            "\<And>d t. err (put d t) = err t" "\<And>d t. in_buf (put d t) = in_buf t"
            "\<And>d t. out_buf (put d t) = out_buf t"
  shows "fill_ok s p"
proof -
  obtain r s1 where f: "(if avail (in_buf s) = 0 then fill_in_buffer s else (0, s)) = (r, s1)"
    by (cases "if avail (in_buf s) = 0 then fill_in_buffer s else (0, s)") auto
  have io: "io_in s s1" using f by (auto split: if_splits dest: fill_in_buffer_io)
  then have fr: "fill_frame s s1" by (rule io_in_fill_frame)
  have e: "r = - 1 \<longrightarrow> err s1 \<noteq> NO_ERROR"
    using f by (auto split: if_splits dest: fill_in_buffer_err)
  have ob: "out_buf s1 = out_buf s" using io by (simp add: io_in_def)
  show ?thesis
    using assms(1) fr e ob put unfolding fill_out_decoder_def f Let_def prod.case fill_ok_def
    by (auto split: if_splits prod.splits sum.splits simp: in_advance_def)
qed

lemma fill_out_buffer_ok:
  assumes "fill_out_buffer be s = Some p"
  shows "fill_ok s p"
proof -
  obtain r s1 where h: "(if compression s = UNKNOWN then gz_head be s else (0, s)) = (r, s1)"
    by (cases "if compression s = UNKNOWN then gz_head be s else (0, s)") auto
  have hk: "head_ok s (r, s1)"
    using h gz_head_ok[of s be] by (auto split: if_splits simp: head_ok_def)
  then have fr: "fill_frame s s1" and r01: "r = 0 \<or> r = - 1"
    and e: "r = - 1 \<longrightarrow> err s1 \<noteq> NO_ERROR \<and> out_buf s1 = out_buf s"
    by (simp_all add: head_ok_def)
  have ob: "compression s \<noteq> UNKNOWN \<longrightarrow> s1 = s" using h by auto
  consider (fail) "r = - 1" | (got) "r \<noteq> - 1" "compression s = UNKNOWN" "avail (out_buf s1) \<noteq> 0"
    | (unc) "r \<noteq> - 1" "\<not> (compression s = UNKNOWN \<and> avail (out_buf s1) \<noteq> 0)"
        "compression s1 = UNCOMPRESSED"
    | (zl) "r \<noteq> - 1" "\<not> (compression s = UNKNOWN \<and> avail (out_buf s1) \<noteq> 0)"
        "compression s1 = ZLIB"
    | (zs) "r \<noteq> - 1" "\<not> (compression s = UNKNOWN \<and> avail (out_buf s1) \<noteq> 0)"
        "compression s1 = ZSTD"
    | (lz) "r \<noteq> - 1" "\<not> (compression s = UNKNOWN \<and> avail (out_buf s1) \<noteq> 0)"
        "compression s1 = LZ4"
    | (other) "r \<noteq> - 1" "\<not> (compression s = UNKNOWN \<and> avail (out_buf s1) \<noteq> 0)"
        "compression s1 = UNKNOWN \<or> compression s1 = GZIP_AFTER_HEADER"
    by (cases "compression s1") auto
  then show ?thesis
  proof cases
    case fail
    with assms h have p: "p = (- 1, s1)" by (simp add: fill_out_buffer_def)
    show ?thesis using fr e fail by (simp add: p fill_ok_def)
  next
    case got
    with assms h have p: "p = (0, s1)" by (simp add: fill_out_buffer_def)
    show ?thesis using fr by (simp add: p fill_ok_def)
  next
    case unc
    obtain r2 s2 where b: "buf_read OUT_BUF s1 = (r2, s2)" by (cases "buf_read OUT_BUF s1") auto
    have p: "p = (if r2 < 0 then (- 1, s2) else (0, s2))"
      using assms h unc b by (auto simp: fill_out_buffer_def split: if_splits)
    have f2: "fill_frame s1 s2"
      using b by (auto simp: buf_read_def Let_def get_buf_def set_buf_def
                       split: prod.splits sum.splits)
    have a2: "r2 < 0 \<longrightarrow> avail (out_buf s1) = 0 \<longrightarrow> avail (out_buf s2) = 0"
      using b by (auto simp: buf_read_def Let_def get_buf_def set_buf_def buf_reset_def
                       split: prod.splits sum.splits if_splits)
    have s1s: "avail (out_buf s) = 0 \<longrightarrow> avail (out_buf s1) = 0"
      using unc(2) ob by auto
    show ?thesis
      using p fill_frame_trans[OF fr f2] buf_read_err[OF b] a2 s1s
      by (auto simp: fill_ok_def)
  next
    case zl
    with assms h obtain s2 where z: "zlib_read be s1 (shl1 (bsize s1)) = Some s2" and p: "p = (0, s2)"
      by (auto simp: fill_out_buffer_def split: if_splits option.splits)
    show ?thesis using p fill_frame_trans[OF fr zlib_read_frame[OF z]] by (simp add: fill_ok_def)
  next
    case zs
    with assms h have d: "fill_out_decoder (ZSTD_decompressStream_fn be) zstd_dctx
                            (\<lambda>d s. s\<lparr>zstd_dctx := d\<rparr>) s1 = Some p"
      by (auto simp: fill_out_buffer_def split: if_splits)
    have "fill_ok s1 p" by (rule fill_out_decoder_ok[OF d]) simp_all
    moreover have "avail (out_buf s) = 0 \<longrightarrow> avail (out_buf s1) = 0" using zs(2) ob by auto
    ultimately show ?thesis using fr by (auto simp: fill_ok_def intro: fill_frame_trans)
  next
    case lz
    with assms h have d: "fill_out_decoder (LZ4F_decompress_fn be) lz4_dctx
                            (\<lambda>d s. s\<lparr>lz4_dctx := d\<rparr>) s1 = Some p"
      by (auto simp: fill_out_buffer_def split: if_splits)
    have "fill_ok s1 p" by (rule fill_out_decoder_ok[OF d]) simp_all
    moreover have "avail (out_buf s) = 0 \<longrightarrow> avail (out_buf s1) = 0" using lz(2) ob by auto
    ultimately show ?thesis using fr by (auto simp: fill_ok_def intro: fill_frame_trans)
  next
    case other
    with assms h have p: "p = (0, s1)" by (auto simp: fill_out_buffer_def split: if_splits)
    show ?thesis using fr by (simp add: p fill_ok_def)
  qed
qed

lemma fs_frame_updates [simp]:
  "fs_frame s (s'\<lparr>fd := a1\<rparr>) = fs_frame s s'"
  "fs_frame s (s'\<lparr>raw_pos := a2\<rparr>) = fs_frame s s'"
  "fs_frame s (s'\<lparr>in_buf := a3\<rparr>) = fs_frame s s'"
  "fs_frame s (s'\<lparr>out_buf := a4\<rparr>) = fs_frame s s'"
  "fs_frame s (s'\<lparr>eof := a5\<rparr>) = fs_frame s s'"
  "fs_frame s (s'\<lparr>raw := a6\<rparr>) = fs_frame s s'"
  "fs_frame s (s'\<lparr>compression := a7\<rparr>) = fs_frame s s'"
  "fs_frame s (s'\<lparr>is_compressed := a8\<rparr>) = fs_frame s s'"
  "fs_frame s (s'\<lparr>err := a9\<rparr>) = fs_frame s s'"
  "fs_frame s (s'\<lparr>err_info := a10\<rparr>) = fs_frame s s'"
  "fs_frame s (s'\<lparr>strm := a11\<rparr>) = fs_frame s s'"
  "fs_frame s (s'\<lparr>fast_seek_cur := a12\<rparr>) = fs_frame s s'"
  "fs_frame s (s'\<lparr>zstd_dctx := a13\<rparr>) = fs_frame s s'"
  "fs_frame s (s'\<lparr>lz4_dctx := a14\<rparr>) = fs_frame s s'"
  "fs_frame s (s'\<lparr>pos := a15\<rparr>) = fs_frame s s'"
  "fs_frame s (s'\<lparr>skip := a16\<rparr>) = fs_frame s s'"
  "fs_frame s (s'\<lparr>seek_pending := a17\<rparr>) = fs_frame s s'"
  by (simp_all add: fs_frame_def fast_seek_extends_def fast_seek_sorted_def split: option.splits)

lemma fs_frame_updates_left [simp]:
  "fs_frame (s\<lparr>out_buf := a4\<rparr>) s' = fs_frame s s'"
  "fs_frame (s\<lparr>pos := a15\<rparr>) s' = fs_frame s s'"
  "fs_frame (s\<lparr>seek_pending := a17\<rparr>) s' = fs_frame s s'"
  by (simp_all add: fs_frame_def fast_seek_extends_def fast_seek_sorted_def split: option.splits)

lemma to_guint_small: "0 \<le> x \<Longrightarrow> int (to_guint x) \<le> x"
proof -
  assume "0 \<le> x"
  then have "x mod 2 ^ 32 \<le> x" by (simp add: zmod_le_nonneg_dividend)
  then show ?thesis by (simp add: to_guint_def)
qed

lemma gz_skip_ok:
  assumes "gz_skip be len s = Some p" and "0 \<le> len"
  shows "skip_ok len s p"
proof -
  have "0 \<le> len \<longrightarrow> skip_ok len s p"
  proof (rule gz_skip.raw_induct[where P = "\<lambda>be len s p. 0 \<le> len \<longrightarrow> skip_ok len s p",
          OF _ assms(1)])
    fix loop :: "'a backend \<Rightarrow> int \<Rightarrow> 'a wtap_reader \<Rightarrow> (int \<times> 'a wtap_reader) option"
      and be len s p
    assume IH: "\<And>be len s p. loop be len s = Some p \<Longrightarrow> 0 \<le> len \<longrightarrow> skip_ok len s p"
      and body: "(if len \<noteq> 0 then
        (if avail (out_buf s) \<noteq> 0 then
           (let n = (if int (avail (out_buf s)) > len then to_guint len
                     else avail (out_buf s))
            in loop be (len - int n)
                 (s\<lparr>out_buf := (out_buf s)\<lparr>avail := guint_sub (avail (out_buf s)) n,
                                                   nxt := nxt (out_buf s) + n\<rparr>,
                        pos := pos s + int n\<rparr>))
         else if err s \<noteq> NO_ERROR then Some (- 1, s)
         else if eof s \<and> avail (in_buf s) = 0 then Some (0, s)
         else
           (case fill_out_buffer be s of
              None \<Rightarrow> None
            | Some (r, s1) \<Rightarrow> if r = - 1 then Some (- 1, s1) else loop be len s1))
      else Some (0, s)) = Some p"
    show "0 \<le> len \<longrightarrow> skip_ok len s p"
    proof
      assume len: "0 \<le> len"
      consider (fin) "len = 0" | (out) "len \<noteq> 0" "avail (out_buf s) \<noteq> 0"
        | (err) "len \<noteq> 0" "avail (out_buf s) = 0" "err s \<noteq> NO_ERROR"
        | (eof) "len \<noteq> 0" "avail (out_buf s) = 0" "err s = NO_ERROR" "eof s \<and> avail (in_buf s) = 0"
        | (fill) "len \<noteq> 0" "avail (out_buf s) = 0" "err s = NO_ERROR"
            "\<not> (eof s \<and> avail (in_buf s) = 0)"
        by blast
      then show "skip_ok len s p"
      proof cases
        case fin
        with body show ?thesis by (auto simp: skip_ok_def)
      next
        case err
        with body len show ?thesis by (auto simp: skip_ok_def)
      next
        case eof
        with body len show ?thesis by (auto simp: skip_ok_def)
      next
        case out
        define n where "n = (if int (avail (out_buf s)) > len then to_guint len
                     else avail (out_buf s))"
        define s1 where "s1 = s\<lparr>out_buf := (out_buf s)\<lparr>avail := guint_sub (avail (out_buf s)) n,
                                                   nxt := nxt (out_buf s) + n\<rparr>,
                        pos := pos s + int n\<rparr>"
        have nl: "int n \<le> len" using len by (auto simp: n_def to_guint_small)
        from body out have "loop be (len - int n) s1 = Some p"
          by (simp add: n_def s1_def Let_def)
        from IH[OF this] nl have k: "skip_ok (len - int n) s1 p" by simp
        then show ?thesis
          by (auto simp: skip_ok_def Let_def s1_def)
      next
        case fill
        with body obtain r s1 where f: "fill_out_buffer be s = Some (r, s1)"
          and rest: "(if r = - 1 then Some (- 1, s1) else loop be len s1) = Some p"
          by (auto split: option.splits)
        have fo: "fill_ok s (r, s1)" using f by (rule fill_out_buffer_ok)
        show ?thesis
        proof (cases "r = - 1")
          case True
          with rest fo fill len show ?thesis
            by (auto simp: skip_ok_def fill_ok_def fill_frame_def)
        next
          case False
          with rest have "loop be len s1 = Some p" by simp
          from IH[OF this] len have k: "skip_ok len s1 p" by simp
          with fo show ?thesis
            by (auto simp: skip_ok_def Let_def fill_ok_def fill_frame_def intro: fs_frame_trans)
        qed
      qed
    qed
  qed
  with assms(2) show ?thesis by simp
qed

lemma length_bytes_at [simp]: "length (bytes_at m off n) = n"
  by (simp add: bytes_at_def)

lemma file_read_loop_ok:
  assumes "file_read_loop be len got copied s = Some p"
  shows "read_ok len got copied s p"
proof (rule file_read_loop.raw_induct[where P = "\<lambda>be len got copied s p. read_ok len got copied s p",
          OF _ assms])
  fix loop :: "'a backend \<Rightarrow> nat \<Rightarrow> nat \<Rightarrow> byte list \<Rightarrow> 'a wtap_reader
                 \<Rightarrow> (int \<times> byte list \<times> 'a wtap_reader) option"
    and be len got copied s p
  assume IH: "\<And>be len got copied s p. loop be len got copied s = Some p \<Longrightarrow> read_ok len got copied s p"
    and body: "(if avail (out_buf s) \<noteq> 0 then
        (let n = (if avail (out_buf s) > len then len else avail (out_buf s));
             copied1 = copied @ bytes_at (buf (out_buf s)) (nxt (out_buf s)) n;
             f1 = s\<lparr>out_buf := (out_buf s)\<lparr>nxt := nxt (out_buf s) + n,
                                                avail := avail (out_buf s) - n\<rparr>,
                       pos := pos s + int n\<rparr>
         in if len - n \<noteq> 0 then loop be (len - n) (got + n) copied1 f1
            else Some (to_int (got + n), copied1, f1))
      else if err s \<noteq> NO_ERROR then Some (- 1, copied, s)
      else if eof s \<and> avail (in_buf s) = 0 then Some (to_int got, copied, s)
      else
        (case fill_out_buffer be s of
           None \<Rightarrow> None
         | Some (r, f1) \<Rightarrow>
             if r = - 1 then Some (- 1, copied, f1)
             else if len \<noteq> 0 then loop be len got copied f1
             else Some (to_int got, copied, f1))) = Some p"
  consider (out) "avail (out_buf s) \<noteq> 0"
    | (err) "avail (out_buf s) = 0" "err s \<noteq> NO_ERROR"
    | (eof) "avail (out_buf s) = 0" "err s = NO_ERROR" "eof s \<and> avail (in_buf s) = 0"
    | (fill) "avail (out_buf s) = 0" "err s = NO_ERROR" "\<not> (eof s \<and> avail (in_buf s) = 0)"
    by blast
  then show "read_ok len got copied s p"
  proof cases
    case err
    with body show ?thesis by (auto simp: read_ok_def)
  next
    case eof
    with body show ?thesis by (auto simp: read_ok_def file_eof_def)
  next
    case out
    define n where "n = (if avail (out_buf s) > len then len else avail (out_buf s))"
    define copied1 where "copied1 = copied @ bytes_at (buf (out_buf s)) (nxt (out_buf s)) n"
    define f1 where "f1 = s\<lparr>out_buf := (out_buf s)\<lparr>nxt := nxt (out_buf s) + n,
                                                avail := avail (out_buf s) - n\<rparr>,
                       pos := pos s + int n\<rparr>"
    have nl: "n \<le> len" by (simp add: n_def)
    have b: "(if len - n \<noteq> 0 then loop be (len - n) (got + n) copied1 f1
            else Some (to_int (got + n), copied1, f1)) = Some p"
      using body unfolding n_def copied1_def f1_def Let_def
      by (simp only: out if_True not_False_eq_True)
    show ?thesis
    proof (cases "len - n \<noteq> 0")
      case True
      with b have "loop be (len - n) (got + n) copied1 f1 = Some p" by simp
      from IH[OF this] have r: "read_ok (len - n) (got + n) copied1 f1 p" .
      then obtain k where k: "k \<le> len - n"
        "length (fst (snd p)) = length copied1 + k" "pos (snd (snd p)) = pos f1 + int k"
        "(fst p = - 1 \<and> err (snd (snd p)) \<noteq> NO_ERROR \<and> avail (out_buf (snd (snd p))) = 0) \<or>
          (fst p = to_int (got + n + k) \<and> (k = len - n \<or> (err (snd (snd p)) = NO_ERROR \<and> file_eof (snd (snd p)))))"
        by (auto simp: read_ok_def Let_def)
      have fr: "fs_frame s (snd (snd p))" "skip (snd (snd p)) = skip s"
        "seek_pending (snd (snd p)) = seek_pending s"
        using r by (auto simp: read_ok_def Let_def f1_def)
      have "n + k \<le> len" using k(1) nl by simp
      moreover have "length (fst (snd p)) = length copied + (n + k)"
        using k(2) by (simp add: copied1_def)
      moreover have "pos (snd (snd p)) = pos s + int (n + k)" using k(3) by (simp add: f1_def)
      moreover have "(fst p = - 1 \<and> err (snd (snd p)) \<noteq> NO_ERROR \<and> avail (out_buf (snd (snd p))) = 0) \<or>
          (fst p = to_int (got + (n + k)) \<and> (n + k = len \<or> (err (snd (snd p)) = NO_ERROR \<and> file_eof (snd (snd p)))))"
        using k(4) k(1) nl by (auto simp: add.assoc)
      ultimately show ?thesis using fr unfolding read_ok_def Let_def by blast
    next
      case False
      with b have p: "p = (to_int (got + n), copied1, f1)" by simp
      from False nl have "n = len" by simp
      then show ?thesis
        unfolding read_ok_def Let_def p
        by (auto simp: copied1_def f1_def intro!: exI[of _ len])
    qed
  next
    case fill
    with body obtain r f1 where f: "fill_out_buffer be s = Some (r, f1)"
      and rest: "(if r = - 1 then Some (- 1, copied, f1)
             else if len \<noteq> 0 then loop be len got copied f1
             else Some (to_int got, copied, f1)) = Some p"
      by (auto split: option.splits)
    have fo: "fill_ok s (r, f1)" using f by (rule fill_out_buffer_ok)
    consider (a) "r = - 1" | (b) "r \<noteq> - 1" "len \<noteq> 0" | (c) "r \<noteq> - 1" "len = 0" by blast
    then show ?thesis
    proof cases
      case a
      with rest fo fill show ?thesis
        by (auto simp: read_ok_def fill_ok_def fill_frame_def)
    next
      case b
      with rest have "loop be len got copied f1 = Some p" by simp
      from IH[OF this] fo show ?thesis
        by (auto simp: read_ok_def Let_def fill_ok_def fill_frame_def intro: fs_frame_trans)
    next
      case c
      with rest fo show ?thesis
        by (auto simp: read_ok_def fill_ok_def fill_frame_def)
    qed
  qed
qed

lemma file_read_loop_at_eof:
  "avail (out_buf s) = 0 \<Longrightarrow> err s = NO_ERROR \<Longrightarrow> eof s \<Longrightarrow> avail (in_buf s) = 0 \<Longrightarrow>
     file_read_loop be len got copied s = Some (to_int got, copied, s)"
  by (subst file_read_loop.simps) simp

lemma file_peekc_loop_at_eof:
  "avail (out_buf s) = 0 \<Longrightarrow> err s = NO_ERROR \<Longrightarrow> eof s \<Longrightarrow> avail (in_buf s) = 0 \<Longrightarrow>
     file_peekc_loop be s = Some (- 1, s)"
  by (subst file_peekc_loop.simps) simp

lemma uint_byte_range: "0 \<le> uint (b :: byte) \<and> uint b < 256"
  using uint_bounded[of b] by simp

lemma file_peekc_loop_ok:
  assumes "file_peekc_loop be s = Some p"
  shows "fill_frame s (snd p) \<and>
         (fst p = - 1 \<or>
          (avail (out_buf (snd p)) \<noteq> 0 \<and>
           fst p = uint (buf (out_buf (snd p)) ! nxt (out_buf (snd p)))))"
proof (rule file_peekc_loop.raw_induct[where P = "\<lambda>be s p. fill_frame s (snd p) \<and>
         (fst p = - 1 \<or>
          (avail (out_buf (snd p)) \<noteq> 0 \<and>
           fst p = uint (buf (out_buf (snd p)) ! nxt (out_buf (snd p)))))", OF _ assms])
  fix loop :: "'a backend \<Rightarrow> 'a wtap_reader \<Rightarrow> (int \<times> 'a wtap_reader) option" and be s p
  assume IH: "\<And>be s p. loop be s = Some p \<Longrightarrow> fill_frame s (snd p) \<and>
         (fst p = - 1 \<or>
          (avail (out_buf (snd p)) \<noteq> 0 \<and>
           fst p = uint (buf (out_buf (snd p)) ! nxt (out_buf (snd p)))))"
    and body: "(if avail (out_buf s) \<noteq> 0
      then Some (uint (buf (out_buf s) ! nxt (out_buf s)), s)
      else if err s \<noteq> NO_ERROR then Some (- 1, s)
      else if eof s \<and> avail (in_buf s) = 0 then Some (- 1, s)
      else
        (case fill_out_buffer be s of
           None \<Rightarrow> None
         | Some (r, f1) \<Rightarrow> if r = - 1 then Some (- 1, f1) else loop be f1)) = Some p"
  show "fill_frame s (snd p) \<and>
         (fst p = - 1 \<or>
          (avail (out_buf (snd p)) \<noteq> 0 \<and>
           fst p = uint (buf (out_buf (snd p)) ! nxt (out_buf (snd p)))))"
  proof (cases "avail (out_buf s) \<noteq> 0 \<or> err s \<noteq> NO_ERROR \<or> (eof s \<and> avail (in_buf s) = 0)")
    case True
    with body show ?thesis by (auto split: if_splits)
  next
    case False
    with body obtain r f1 where f: "fill_out_buffer be s = Some (r, f1)"
      and rest: "(if r = - 1 then Some (- 1, f1) else loop be f1) = Some p"
      by (auto split: option.splits)
    have fo: "fill_ok s (r, f1)" using f by (rule fill_out_buffer_ok)
    show ?thesis
    proof (cases "r = - 1")
      case True
      with rest fo show ?thesis by (auto simp: fill_ok_def)
    next
      case False
      with rest have "loop be f1 = Some p" by simp
      from IH[OF this] fo show ?thesis
        by (auto simp: fill_ok_def intro: fill_frame_trans)
    qed
  qed
qed


subsection \<open>Looking up the fast-seek array\<close>

lemma mid_no_wrap:
  fixes low mx :: nat
  assumes "low < mx" "mx \<le> 2 ^ 31"
  shows "((low + mx) mod 2 ^ 32) div 2 = (low + mx) div 2"
proof -
  have "low + mx < (2::nat) ^ 32" using assms by simp
  then show ?thesis by simp
qed

lemma fast_seek_find_loop_correct:
  assumes srt: "sorted_wrt (<) (map fsp_out pdata)"
      and len: "length pdata \<le> 2 ^ 31"
  shows "low \<le> mx \<Longrightarrow> mx \<le> length pdata \<Longrightarrow>
     (case smallest of None \<Rightarrow> low = 0
        | Some e \<Rightarrow> 0 < low \<and> e = pdata ! (low - 1) \<and> fsp_out e < p) \<Longrightarrow>
     (\<forall>k. mx \<le> k \<and> k < length pdata \<longrightarrow> p < fsp_out (pdata ! k)) \<Longrightarrow>
     \<exists>r. fast_seek_find_loop pdata p smallest low mx = Some r \<and>
       (case r of None \<Rightarrow> \<forall>k < length pdata. p < fsp_out (pdata ! k)
          | Some e \<Rightarrow> \<exists>j < length pdata. e = pdata ! j \<and> fsp_out e \<le> p \<and>
               (\<forall>k. j < k \<and> k < length pdata \<longrightarrow> p < fsp_out (pdata ! k)))"
proof (induction "mx - low" arbitrary: low mx smallest rule: less_induct)
  case less
  have mono: "\<And>a b. a < b \<Longrightarrow> b < length pdata \<Longrightarrow> fsp_out (pdata ! a) < fsp_out (pdata ! b)"
    using srt by (simp add: sorted_wrt_iff_nth_less)
  show ?case
  proof (cases "low < mx")
    case False
    then have eq: "low = mx" using less.prems by simp
    have "fast_seek_find_loop pdata p smallest low mx = Some smallest"
      using False by (subst fast_seek_find_loop.simps) simp
    moreover have "case smallest of None \<Rightarrow> \<forall>k < length pdata. p < fsp_out (pdata ! k)
          | Some e \<Rightarrow> \<exists>j < length pdata. e = pdata ! j \<and> fsp_out e \<le> p \<and>
               (\<forall>k. j < k \<and> k < length pdata \<longrightarrow> p < fsp_out (pdata ! k))"
    proof (cases smallest)
      case None
      then show ?thesis using less.prems eq by simp
    next
      case (Some e)
      with less.prems(3) have e: "0 < low" "e = pdata ! (low - 1)" "fsp_out e < p" by auto
      have "low - 1 < length pdata" using e less.prems eq by simp
      moreover have "\<forall>k. low - 1 < k \<and> k < length pdata \<longrightarrow> p < fsp_out (pdata ! k)"
        using less.prems(4) eq e(1) by auto
      ultimately show ?thesis using Some e by auto
    qed
    ultimately show ?thesis by blast
  next
    case True
    define i where "i = (low + mx) div 2"
    have "((low + mx) mod 2 ^ 32) div 2 = i"
      unfolding i_def using True less.prems len by (intro mid_no_wrap) auto
    then have mid: "(low + mx) mod 4294967296 div 2 = i" by simp
    have i: "low \<le> i" "i < mx" using True by (auto simp: i_def)
    have il: "i < length pdata" using i less.prems by simp
    consider (lt) "p < fsp_out (pdata ! i)" | (gt) "fsp_out (pdata ! i) < p" | (eq) "p = fsp_out (pdata ! i)"
      by linarith
    then show ?thesis
    proof cases
      case lt
      have step: "fast_seek_find_loop pdata p smallest low mx = fast_seek_find_loop pdata p smallest low i"
        using True lt by (subst fast_seek_find_loop.simps) (simp add: mid Let_def)
      have "\<forall>k. i \<le> k \<and> k < length pdata \<longrightarrow> p < fsp_out (pdata ! k)"
      proof (intro allI impI)
        fix k assume k: "i \<le> k \<and> k < length pdata"
        show "p < fsp_out (pdata ! k)"
        proof (cases "k = i")
          case True then show ?thesis using lt by simp
        next
          case False
          then have "fsp_out (pdata ! i) < fsp_out (pdata ! k)" using k mono by simp
          then show ?thesis using lt by simp
        qed
      qed
      then show ?thesis
        unfolding step using less.hyps[of i low smallest] i il less.prems by auto
    next
      case gt
      have step: "fast_seek_find_loop pdata p smallest low mx =
                  fast_seek_find_loop pdata p (Some (pdata ! i)) (i + 1) mx"
        using True gt by (subst fast_seek_find_loop.simps) (simp add: mid Let_def)
      show ?thesis
        unfolding step using less.hyps[of mx "i + 1" "Some (pdata ! i)"] i il less.prems gt by auto
    next
      case eq
      have step: "fast_seek_find_loop pdata p smallest low mx = Some (Some (pdata ! i))"
        using True eq by (subst fast_seek_find_loop.simps) (simp add: mid Let_def)
      have "\<forall>k. i < k \<and> k < length pdata \<longrightarrow> p < fsp_out (pdata ! k)"
        using mono eq by auto
      then show ?thesis unfolding step using il eq by auto
    qed
  qed
qed

text \<open>
  C4. On a fast-seek array that is strictly sorted by increasing \<open>out\<close> (and short enough
  for \<^verbatim>\<open>low + max\<close> not to wrap: at most \<open>2 ^ 31\<close> entries), \<^verbatim>\<open>fast_seek_find(file, p)\<close>
  returns the entry with the largest \<open>out\<close> that is at most \<open>p\<close>; it returns \<^verbatim>\<open>NULL\<close>
  exactly when no array is attached or every entry's \<open>out\<close> exceeds \<open>p\<close>.
\<close>

theorem fast_seek_find_largest_at_most:
  "(case fast_seek file of
      None \<Rightarrow> fast_seek_find file p = Some None
    | Some pdata \<Rightarrow>
        sorted_wrt (<) (map fsp_out pdata) \<longrightarrow> length pdata \<le> 2 ^ 31 \<longrightarrow>
        (\<exists>r. fast_seek_find file p = Some r \<and>
             (r = None \<longleftrightarrow> (\<forall>e \<in> set pdata. p < fsp_out e)) \<and>
             (\<forall>e. r = Some e \<longrightarrow>
                  e \<in> set pdata \<and> fsp_out e \<le> p \<and>
                  (\<forall>e' \<in> set pdata. fsp_out e' \<le> p \<longrightarrow> fsp_out e' \<le> fsp_out e))))"
proof (cases "fast_seek file")
  case None
  then show ?thesis by (simp add: fast_seek_find_def)
next
  case (Some pdata)
  have "\<exists>r. fast_seek_find file p = Some r \<and>
             (r = None \<longleftrightarrow> (\<forall>e \<in> set pdata. p < fsp_out e)) \<and>
             (\<forall>e. r = Some e \<longrightarrow>
                  e \<in> set pdata \<and> fsp_out e \<le> p \<and>
                  (\<forall>e' \<in> set pdata. fsp_out e' \<le> p \<longrightarrow> fsp_out e' \<le> fsp_out e))"
    if srt: "sorted_wrt (<) (map fsp_out pdata)" and len: "length pdata \<le> 2 ^ 31"
  proof -
    have mono: "\<And>a b. a < b \<Longrightarrow> b < length pdata \<Longrightarrow> fsp_out (pdata ! a) < fsp_out (pdata ! b)"
      using srt by (simp add: sorted_wrt_iff_nth_less)
    from fast_seek_find_loop_correct[OF srt len, where low = 0 and mx = "length pdata" and smallest = None and p = p]
    obtain r where run: "fast_seek_find_loop pdata p None 0 (length pdata) = Some r"
      and r: "case r of None \<Rightarrow> \<forall>k < length pdata. p < fsp_out (pdata ! k)
          | Some e \<Rightarrow> \<exists>j < length pdata. e = pdata ! j \<and> fsp_out e \<le> p \<and>
               (\<forall>k. j < k \<and> k < length pdata \<longrightarrow> p < fsp_out (pdata ! k))"
      by auto
    have find: "fast_seek_find file p = Some r"
      using Some run by (simp add: fast_seek_find_def)
    show ?thesis
    proof (cases r)
      case None
      with r have "\<forall>e \<in> set pdata. p < fsp_out e" by (auto simp: in_set_conv_nth)
      with find None show ?thesis by simp
    next
      case (Some e)
      with r obtain j where j: "j < length pdata" "e = pdata ! j" "fsp_out e \<le> p"
        and above: "\<forall>k. j < k \<and> k < length pdata \<longrightarrow> p < fsp_out (pdata ! k)"
        by auto
      have mem: "e \<in> set pdata" using j by simp
      have best: "fsp_out e' \<le> fsp_out e" if "e' \<in> set pdata" "fsp_out e' \<le> p" for e'
      proof -
        from that obtain k where k: "k < length pdata" "e' = pdata ! k"
          by (auto simp: in_set_conv_nth)
        have "\<not> j < k" using above k that by force
        then consider "k = j" | "k < j" by linarith
        then show ?thesis
        proof cases
          case 1 then show ?thesis using k j by simp
        next
          case 2 then show ?thesis using mono[of k j] k j by simp
        qed
      qed
      have "\<not> p < fsp_out e" using j(3) by simp
      with mem have "\<not> (\<forall>e \<in> set pdata. p < fsp_out e)" by blast
      with find Some mem j best show ?thesis by auto
    qed
  qed
  with Some show ?thesis by simp
qed

theorem fast_seek_find_largest_at_most_witness:
  "(let file = file_set_random_access (file_fdopen demo_backend (demo_file []) 4096)
                 (Some [demo_point 0, demo_point 10, demo_point 20])
    in fast_seek file = Some [demo_point 0, demo_point 10, demo_point 20]
       \<and> sorted_wrt (<) (map fsp_out [demo_point 0, demo_point 10, demo_point 20])
       \<and> fast_seek_find file 15 = Some (Some (demo_point 10)))"
proof -
  define rd where "rd = file_set_random_access (file_fdopen demo_backend (demo_file []) 4096)
                 (Some [demo_point 0, demo_point 10, demo_point 20])"
  have fs: "fast_seek rd = Some [demo_point 0, demo_point 10, demo_point 20]"
    by (simp add: rd_def file_set_random_access_def)
  have srt: "sorted_wrt (<) (map fsp_out [demo_point 0, demo_point 10, demo_point 20])"
    by (simp add: demo_point_def)
  from fast_seek_find_largest_at_most[of rd 15] fs srt
  obtain r where r: "fast_seek_find rd 15 = Some r"
    "r = None \<longleftrightarrow> (\<forall>e \<in> set [demo_point 0, demo_point 10, demo_point 20]. 15 < fsp_out e)"
    "\<forall>e. r = Some e \<longrightarrow> e \<in> set [demo_point 0, demo_point 10, demo_point 20] \<and> fsp_out e \<le> 15 \<and>
        (\<forall>e' \<in> set [demo_point 0, demo_point 10, demo_point 20]. fsp_out e' \<le> 15 \<longrightarrow> fsp_out e' \<le> fsp_out e)"
    by auto
  from r(2) have "r \<noteq> None" by (simp add: demo_point_def)
  then obtain e where e: "r = Some e" by auto
  with r(3) have "e = demo_point 10" by (auto simp: demo_point_def)
  with e r(1) fs srt show ?thesis by (simp add: rd_def Let_def)
qed

lemma GZ_GETC_fail_state:
  "GZ_GETC s = (- 1, s1) \<Longrightarrow> avail (in_buf s1) = 0 \<and> (err s1 \<noteq> NO_ERROR \<or> eof s1)"
proof -
  assume g: "GZ_GETC s = (- 1, s1)"
  have nz: "uint (b :: byte) \<noteq> - 1" for b
  proof -
    have "0 \<le> uint b" by simp
    then show ?thesis by linarith
  qed
  show ?thesis
  proof (cases "avail (in_buf s) = 0")
    case False
    with g nz show ?thesis by (auto simp: GZ_GETC_def split: if_splits)
  next
    case True
    consider (e) "err s \<noteq> NO_ERROR" | (r) "err s = NO_ERROR" "\<not> eof s" | (f) "err s = NO_ERROR" "eof s"
      by blast
    then show ?thesis
    proof cases
      case e
      with g True show ?thesis by (auto simp: GZ_GETC_def fill_in_buffer_def split: if_splits)
    next
      case f
      with g True nz show ?thesis by (auto simp: GZ_GETC_def fill_in_buffer_def split: if_splits)
    next
      case r
      obtain x s0 where b: "buf_read IN_BUF s = (x, s0)" by (cases "buf_read IN_BUF s") auto
      have k: "(x < 0 \<longrightarrow> avail (in_buf s0) = 0 \<and> err s0 \<noteq> NO_ERROR) \<and>
               (\<not> x < 0 \<longrightarrow> avail (in_buf s0) = 0 \<longrightarrow> eof s0)"
        using b True
        by (auto simp: buf_read_def Let_def get_buf_def set_buf_def buf_reset_def
                 split: prod.splits sum.splits if_splits)
      from g True r b k nz show ?thesis
        by (auto simp: GZ_GETC_def fill_in_buffer_def split: if_splits)
    qed
  qed
qed

lemma GZ_GETC_sticky:
  assumes "GZ_GETC s = (- 1, s1)" and "GZ_GETC s1 = (ch, s2)"
  shows "ch = - 1"
proof -
  from GZ_GETC_fail_state[OF assms(1)]
  have a: "avail (in_buf s1) = 0" and b: "err s1 \<noteq> NO_ERROR \<or> eof s1" by simp_all
  from assms(2) a b show ?thesis
    by (auto simp: GZ_GETC_def fill_in_buffer_def split: if_splits)
qed

lemma gz_next4_keeps_err:
  assumes "gz_next4 s = (Some v, s')"
  shows "err s' = err s \<and> err_info s' = err_info s"
proof -
  obtain c0 s1 where g0: "GZ_GETC s = (c0, s1)" by (cases "GZ_GETC s") auto
  obtain c1 s2 where g1: "GZ_GETC s1 = (c1, s2)" by (cases "GZ_GETC s1") auto
  obtain c2 s3 where g2: "GZ_GETC s2 = (c2, s3)" by (cases "GZ_GETC s2") auto
  obtain c3 s4 where g3: "GZ_GETC s3 = (c3, s4)" by (cases "GZ_GETC s3") auto
  from assms have c3: "c3 \<noteq> - 1" and s4: "s' = s4"
    by (auto simp: gz_next4_def g0 g1 g2 g3 split: if_splits)
  have c2: "c2 \<noteq> - 1" using GZ_GETC_sticky[OF _ g3] g2 c3 by auto
  have c1: "c1 \<noteq> - 1" using GZ_GETC_sticky[OF _ g2] g1 c2 by auto
  have c0: "c0 \<noteq> - 1" using GZ_GETC_sticky[OF _ g1] g0 c1 by auto
  show ?thesis
    using GZ_GETC_err[OF g0 c0] GZ_GETC_err[OF g1 c1] GZ_GETC_err[OF g2 c2] GZ_GETC_err[OF g3 c3] s4
    by simp
qed

lemma strrchr_append:
  "strrchr (xs @ ys) c =
     (case strrchr ys c of Some r \<Rightarrow> Some r | None \<Rightarrow> map_option (\<lambda>r. r @ ys) (strrchr xs c))"
  by (induction xs) (auto split: option.splits)

lemma file_open_caz:
  "\<exists>ft. file_open be (base @ ''.caz'') (Some f) want = Some ft \<and> dont_check_crc ft"
  by (simp add: file_open_def strrchr_append g_ascii_strcasecmp_eq_def Let_def)

subsection \<open>Running the reader on concrete files\<close>

text \<open>
  The rules with which the simplifier runs the model on a concrete file: the definitions,
  and congruence rules that make it evaluate a call before it looks at what follows.
\<close>

lemma gz_skipn_4: "gz_skipn s 4 = gz_skipn s (Suc (Suc (Suc (Suc 0))))"
  by (simp only: numeral_eq_Suc pred_numeral_simps BitM.simps One_nat_def)

lemma on_success_weak_cong: "r = r' \<Longrightarrow> on_success r k = on_success r' k"
  by simp

lemmas eval_congs = let_weak_cong prod.case_cong_weak on_success_weak_cong

lemmas reader_defs =
  file_fdopen_def gz_reset_def buf_reset_def ws_lseek64_def ws_read_def shl1_def
  file_read_def file_peekc_def file_getc_def file_tell_def file_eof_def
  fill_out_buffer_def gz_head_def gz_head_gzip_def gz_head_other_def gz_head_setup_def
  fill_in_buffer_def buf_read_def get_buf_def set_buf_def bytes_in_buffer_def offset_in_buffer_def
  guint_sub_def to_guint_def to_int_def memcpy_def bytes_at_def in_byte_def in_advance_def
  GZ_GETC_def gz_next1_def gz_next2_def gz_next4_def set_short_read_def on_success_def
  zlib_read_def zlib_read_round_def zlib_read_window_def zlib_read_trailer_def inflate_def
  inflateReset_def demo_backend_def demo_inflate_def demo_file_def
  file_seek_def file_seek_offset_def file_seek_slow_def fast_seek_find_def G_MAXINT64_def
  file_set_random_access_def gz_skipn_4 Let_def

subsection \<open>The gzip trailer\<close>

text \<open>
  C3. With \<open>dont_check_crc\<close> set, once both trailer words have been read, the trailer
  check of \<^verbatim>\<open>zlib_read\<close> sets no error whatever the CRC word is, as long as the length
  word equals \<^verbatim>\<open>strm.total_out\<close> modulo \<open>2 ^ 32\<close> (\<open>err\<close> and \<open>err_info\<close> stay as they
  were); a length word that differs sets \<^verbatim>\<open>WTAP_ERR_DECOMPRESS\<close> with "length field
  wrong". In both cases \<open>compression\<close> is \<open>UNKNOWN\<close> afterwards. \<^verbatim>\<open>zlib_read\<close> runs this
  check when its loop ends with \<^verbatim>\<open>Z_STREAM_END\<close>, and the loop leaves the flag alone. The
  flag is set by \<^verbatim>\<open>file_open\<close> for every path that ends in \<^verbatim>\<open>.caz\<close>.
\<close>

theorem zlib_read_trailer_caz:
  "(dont_check_crc s \<longrightarrow> fst (gz_next4 s) = Some crc \<longrightarrow>
      fst (gz_next4 (snd (gz_next4 s))) = Some len \<longrightarrow>
      compression (zlib_read_trailer s) = UNKNOWN \<and>
      (if unat len \<noteq> total_out (strm s) mod 2 ^ 32
       then err (zlib_read_trailer s) = WTAP_ERR_DECOMPRESS \<and>
            err_info (zlib_read_trailer s) = Some ''length field wrong''
       else err (zlib_read_trailer s) = err s \<and> err_info (zlib_read_trailer s) = err_info s))
   \<and> (zlib_read_loop be count Z_OK count 0 count s0 = Some (Z_STREAM_END, ao, s1) \<longrightarrow>
        zlib_read be s0 count =
          Some (zlib_read_trailer (s1\<lparr>out_buf := (out_buf s1)\<lparr>nxt := 0, avail := count - ao\<rparr>\<rparr>))
        \<and> dont_check_crc s1 = dont_check_crc s0)
   \<and> (\<exists>ft. file_open be (base @ ''.caz'') (Some f) want = Some ft \<and> dont_check_crc ft)"
proof (intro conjI impI)
  assume flag: "dont_check_crc s" and c: "fst (gz_next4 s) = Some crc"
    and l: "fst (gz_next4 (snd (gz_next4 s))) = Some len"
  obtain s1 where a: "gz_next4 s = (Some crc, s1)" using c by (cases "gz_next4 s") auto
  obtain s2 where b: "gz_next4 s1 = (Some len, s2)" using l a by (cases "gz_next4 s1") auto
  have io: "io_in s s2" using gz_next4_io[OF a] gz_next4_io[OF b] by (rule io_in_trans)
  have e: "err s2 = err s" "err_info s2 = err_info s"
    using gz_next4_keeps_err[OF a] gz_next4_keeps_err[OF b] by simp_all
  have k: "dont_check_crc s2" "strm s2 = strm s" using io flag by (simp_all add: io_in_def)
  show "compression (zlib_read_trailer s) = UNKNOWN"
    by (simp add: zlib_read_trailer_def Let_def split: prod.splits option.splits)
  show "if unat len \<noteq> total_out (strm s) mod 2 ^ 32
       then err (zlib_read_trailer s) = WTAP_ERR_DECOMPRESS \<and>
            err_info (zlib_read_trailer s) = Some ''length field wrong''
       else err (zlib_read_trailer s) = err s \<and> err_info (zlib_read_trailer s) = err_info s"
    using e k by (simp add: zlib_read_trailer_def a b Let_def)
next
  assume l: "zlib_read_loop be count Z_OK count 0 count s0 = Some (Z_STREAM_END, ao, s1)"
  then show "zlib_read be s0 count =
          Some (zlib_read_trailer (s1\<lparr>out_buf := (out_buf s1)\<lparr>nxt := 0, avail := count - ao\<rparr>\<rparr>))"
    by (simp add: zlib_read_def Let_def)
  from zlib_read_loop_frame[OF l] show "dont_check_crc s1 = dont_check_crc s0"
    by (simp add: fill_frame_def fs_frame_def)
next
  show "\<exists>ft. file_open be (base @ ''.caz'') (Some f) want = Some ft \<and> dont_check_crc ft"
    by (rule file_open_caz)
qed

theorem zlib_read_trailer_caz_witness:
  "dont_check_crc demo_trailer_state
   \<and> fst (gz_next4 demo_trailer_state) = Some 0x09090909
   \<and> fst (gz_next4 (snd (gz_next4 demo_trailer_state))) = Some 2
   \<and> compression (zlib_read_trailer demo_trailer_state) = UNKNOWN
   \<and> err (zlib_read_trailer demo_trailer_state) = NO_ERROR
   \<and> dont_check_crc demo_caz_state
   \<and> map_option fst (zlib_read_loop demo_backend 16 Z_OK 16 0 16 demo_caz_state) = Some Z_STREAM_END
   \<and> map_option compression (zlib_read demo_backend demo_caz_state 16) = Some UNKNOWN"
proof -
  have h1: "dont_check_crc demo_trailer_state"
    by (simp add: demo_trailer_state_def)
  have h2: "fst (gz_next4 demo_trailer_state) = Some 0x09090909"
    by (simp add: demo_trailer_state_def reader_defs cong: eval_congs)
  have h3: "fst (gz_next4 (snd (gz_next4 demo_trailer_state))) = Some 2"
    by (simp add: demo_trailer_state_def reader_defs cong: eval_congs)
  have e0: "err demo_trailer_state = NO_ERROR" "total_out (strm demo_trailer_state) = 2"
    by (simp_all add: demo_trailer_state_def reader_defs)
  have h4: "dont_check_crc demo_caz_state"
    by (simp add: demo_caz_state_def demo_gzip_def file_open_def g_ascii_strcasecmp_eq_def
          g_ascii_tolower_def reader_defs cong: eval_congs)
  have h5: "map_option fst (zlib_read_loop demo_backend 16 Z_OK 16 0 16 demo_caz_state)
              = Some Z_STREAM_END"
    by (simp add: demo_caz_state_def demo_gzip_def file_open_def g_ascii_strcasecmp_eq_def
          g_ascii_tolower_def reader_defs zlib_read_loop.simps cong: eval_congs)
  then obtain ao s1
    where l: "zlib_read_loop demo_backend 16 Z_OK 16 0 16 demo_caz_state = Some (Z_STREAM_END, ao, s1)"
    by (cases "zlib_read_loop demo_backend 16 Z_OK 16 0 16 demo_caz_state") auto
  note t = zlib_read_trailer_caz[of demo_trailer_state "0x09090909" 2 demo_backend 16
              demo_caz_state ao s1 "''x''" "demo_file []" 8]
  from t h1 h2 h3 e0 have c1: "compression (zlib_read_trailer demo_trailer_state) = UNKNOWN"
    and c2: "err (zlib_read_trailer demo_trailer_state) = NO_ERROR" by simp_all
  from t l have z: "zlib_read demo_backend demo_caz_state 16 =
          Some (zlib_read_trailer (s1\<lparr>out_buf := (out_buf s1)\<lparr>nxt := 0, avail := 16 - ao\<rparr>\<rparr>))"
    by simp
  have c3: "map_option compression (zlib_read demo_backend demo_caz_state 16) = Some UNKNOWN"
    unfolding z by (simp add: zlib_read_trailer_def Let_def split: prod.splits option.splits)
  from h1 h2 h3 c1 c2 h4 h5 c3 show ?thesis by simp
qed

subsection \<open>End of file\<close>

text \<open>
  C10. \<^verbatim>\<open>file_eof\<close> is true exactly when the \<open>eof\<close> flag is set and both buffers are
  empty, so it is false while bytes remain in the output or the input buffer; and
  \<^verbatim>\<open>buf_read\<close> sets the flag exactly when \<^verbatim>\<open>ws_read\<close> returned no bytes (it never clears
  it).
\<close>

theorem file_eof_iff:
  "file_eof file = (eof file \<and> avail (in_buf file) = 0 \<and> avail (out_buf file) = 0)
   \<and> (avail (out_buf file) \<noteq> 0 \<or> avail (in_buf file) \<noteq> 0 \<longrightarrow> \<not> file_eof file)
   \<and> (buf_read w s = (r, s') \<longrightarrow>
        eof s' = (eof s \<or>
          fst (ws_read (fd s)
                 (if guint_sub (bsize s) (bytes_in_buffer (get_buf w s)) = 0 then bsize s
                  else guint_sub (bsize s) (bytes_in_buffer (get_buf w s)))) = Inr []))"
proof (intro conjI impI)
  show "file_eof file = (eof file \<and> avail (in_buf file) = 0 \<and> avail (out_buf file) = 0)"
    by (simp add: file_eof_def)
  show "\<not> file_eof file" if "avail (out_buf file) \<noteq> 0 \<or> avail (in_buf file) \<noteq> 0"
    using that by (auto simp: file_eof_def)
  show "eof s' = (eof s \<or>
          fst (ws_read (fd s)
                 (if guint_sub (bsize s) (bytes_in_buffer (get_buf w s)) = 0 then bsize s
                  else guint_sub (bsize s) (bytes_in_buffer (get_buf w s)))) = Inr [])"
    if "buf_read w s = (r, s')"
    using that
    by (cases w) (auto simp: buf_read_def Let_def get_buf_def set_buf_def
                       split: prod.splits sum.splits)
qed

theorem file_eof_iff_witness:
  "avail (out_buf demo_peeked) \<noteq> 0 \<and> \<not> file_eof demo_peeked
   \<and> \<not> eof demo_peeked \<and> eof (snd (buf_read OUT_BUF demo_peeked))
   \<and> \<not> file_eof (snd (buf_read OUT_BUF demo_peeked))"
proof -
  have v: "nxt (out_buf demo_peeked) = 0" "avail (out_buf demo_peeked) = 5"
    "\<not> eof demo_peeked" "bsize demo_peeked = 4096"
    "fd demo_peeked = \<lparr>contents = [0x41, 0x42, 0x43, 0x44, 0x45], fpos = 5, events = [],
                         seekable = True\<rparr>"
    by (simp_all add: demo_peeked_def reader_defs file_peekc_loop.simps cong: eval_congs)
  have a: "avail (out_buf demo_peeked) \<noteq> 0" by (simp add: v)
  have r: "fst (ws_read (fd demo_peeked)
                 (if guint_sub (bsize demo_peeked) (bytes_in_buffer (get_buf OUT_BUF demo_peeked)) = 0
                  then bsize demo_peeked
                  else guint_sub (bsize demo_peeked) (bytes_in_buffer (get_buf OUT_BUF demo_peeked))))
            = Inr []"
    by (simp add: v get_buf_def bytes_in_buffer_def guint_sub_def ws_read_def)
  have o: "avail (out_buf (snd (buf_read OUT_BUF demo_peeked))) \<noteq> 0"
    by (simp add: v buf_read_def get_buf_def set_buf_def bytes_in_buffer_def guint_sub_def
          ws_read_def Let_def)
  note t = file_eof_iff[of _ OUT_BUF demo_peeked "fst (buf_read OUT_BUF demo_peeked)"
             "snd (buf_read OUT_BUF demo_peeked)"]
  from t[of demo_peeked] a have n1: "\<not> file_eof demo_peeked" by blast
  from t[of demo_peeked] r have e: "eof (snd (buf_read OUT_BUF demo_peeked))" by simp
  from t[of "snd (buf_read OUT_BUF demo_peeked)"] o
  have n2: "\<not> file_eof (snd (buf_read OUT_BUF demo_peeked))" by blast
  from a n1 v(3) e n2 show ?thesis by simp
qed

subsection \<open>Reading\<close>

lemma to_int_small: "k < 2 ^ 31 \<Longrightarrow> to_int k = int k"
  by (simp add: to_int_def)

lemma to_int_nonneg: "k < 2 ^ 32 \<Longrightarrow> 0 \<le> to_int k \<Longrightarrow> to_int k = int k"
  by (auto simp: to_int_def split: if_splits)

lemma file_read_ok:
  assumes r: "file_read be len s = Some p" and sk: "seek_pending s \<longrightarrow> 0 \<le> skip s"
  shows "(fst p = - 1 \<and> err (snd (snd p)) \<noteq> NO_ERROR \<and> avail (out_buf (snd (snd p))) = 0) \<or>
         (\<exists>k \<le> len. fst p = to_int k \<and> length (fst (snd p)) = k)"
proof (cases "len = 0")
  case True
  with r show ?thesis by (auto simp: file_read_def to_int_def)
next
  case False
  from r False obtain x f1
    where g: "(if seek_pending s then gz_skip be (skip s) (s\<lparr>seek_pending := False\<rparr>)
               else Some (0, s)) = Some (x, f1)"
      and rest: "(if x = - 1 then Some (- 1, [], f1) else file_read_loop be len 0 [] f1) = Some p"
    by (auto simp: file_read_def split: option.splits)
  show ?thesis
  proof (cases "x = - 1")
    case True
    with rest have p: "p = (- 1, [], f1)" by simp
    from g True have "seek_pending s" and gs: "gz_skip be (skip s) (s\<lparr>seek_pending := False\<rparr>) = Some (- 1, f1)"
      by (auto split: if_splits)
    with sk have "0 \<le> skip s" by simp
    from gz_skip_ok[OF gs this] show ?thesis by (simp add: p skip_ok_def Let_def)
  next
    case False
    with rest have "file_read_loop be len 0 [] f1 = Some p" by simp
    from file_read_loop_ok[OF this] show ?thesis
      by (auto simp: read_ok_def Let_def)
  qed
qed

text \<open>
  C1 (amended). \<^verbatim>\<open>file_read\<close> returns the number of bytes it copied, or -1. It returns -1
  only with an error recorded and the output buffer empty, but also after it has copied
  bytes in the same call; the count of those is then not reported. An error that
  \<^verbatim>\<open>zlib_read\<close> records (such as a trailer mismatch) does not fail the call that fills
  the buffer: a read that asks for no more than the output buffer holds gets those bytes
  whatever \<open>err\<close> is, and a read on an empty buffer with \<open>err\<close> set returns -1.
\<close>

theorem file_read_returns:
  "(file_read be len s = Some (ret, copied, s') \<longrightarrow> (seek_pending s \<longrightarrow> 0 \<le> skip s) \<longrightarrow>
      len < 2 ^ 31 \<longrightarrow>
      (ret = - 1 \<and> err s' \<noteq> NO_ERROR \<and> avail (out_buf s') = 0) \<or>
      (ret = int (length copied) \<and> length copied \<le> len))
   \<and> (0 < len \<longrightarrow> len \<le> avail (out_buf s) \<longrightarrow> len < 2 ^ 31 \<longrightarrow> \<not> seek_pending s \<longrightarrow>
        file_read be len s =
          Some (int len, bytes_at (buf (out_buf s)) (nxt (out_buf s)) len,
                s\<lparr>out_buf := (out_buf s)\<lparr>nxt := nxt (out_buf s) + len,
                                          avail := avail (out_buf s) - len\<rparr>,
                  pos := pos s + int len\<rparr>))
   \<and> (0 < len \<longrightarrow> avail (out_buf s) = 0 \<longrightarrow> err s \<noteq> NO_ERROR \<longrightarrow> \<not> seek_pending s \<longrightarrow>
        file_read be len s = Some (- 1, [], s))
   \<and> (compression s = ZLIB \<longrightarrow> fill_out_buffer be s = Some (r, s1) \<longrightarrow> r = 0)"
proof (intro conjI impI)
  assume r: "file_read be len s = Some (ret, copied, s')" and sk: "seek_pending s \<longrightarrow> 0 \<le> skip s"
    and l: "len < 2 ^ 31"
  from file_read_ok[OF r sk]
  consider "ret = - 1 \<and> err s' \<noteq> NO_ERROR \<and> avail (out_buf s') = 0"
    | k where "k \<le> len" "ret = to_int k" "length copied = k"
    by auto
  then show "(ret = - 1 \<and> err s' \<noteq> NO_ERROR \<and> avail (out_buf s') = 0) \<or>
      (ret = int (length copied) \<and> length copied \<le> len)"
  proof cases
    case 1
    then show ?thesis by simp
  next
    case 2
    with l have "k < 2 ^ 31" by simp
    then have "to_int k = int k" by (rule to_int_small)
    with 2 show ?thesis by simp
  qed
next
  assume "0 < len" "len \<le> avail (out_buf s)" "len < 2 ^ 31" "\<not> seek_pending s"
  then show "file_read be len s =
          Some (int len, bytes_at (buf (out_buf s)) (nxt (out_buf s)) len,
                s\<lparr>out_buf := (out_buf s)\<lparr>nxt := nxt (out_buf s) + len,
                                          avail := avail (out_buf s) - len\<rparr>,
                  pos := pos s + int len\<rparr>)"
    by (subst file_read_def, subst file_read_loop.simps) (auto simp: to_int_small Let_def)
next
  assume "0 < len" "avail (out_buf s) = 0" "err s \<noteq> NO_ERROR" "\<not> seek_pending s"
  then show "file_read be len s = Some (- 1, [], s)"
    by (subst file_read_def, subst file_read_loop.simps) auto
next
  assume "compression s = ZLIB" "fill_out_buffer be s = Some (r, s1)"
  then show "r = 0"
    by (auto simp: fill_out_buffer_def split: option.splits)
qed

theorem file_read_returns_witness:
  "\<not> seek_pending demo_gz_fresh \<and> compression (snd (gz_head demo_backend demo_gz_fresh)) = ZLIB
   \<and> map_option fst (fill_out_buffer demo_backend (snd (gz_head demo_backend demo_gz_fresh))) = Some 0
   \<and> map_option (err \<circ> snd) (fill_out_buffer demo_backend (snd (gz_head demo_backend demo_gz_fresh)))
        = Some WTAP_ERR_DECOMPRESS
   \<and> map_option fst (file_read demo_backend 1 demo_gz_fresh) = Some 1
   \<and> map_option (length \<circ> fst \<circ> snd) (file_read demo_backend 1 demo_gz_fresh) = Some 1
   \<and> avail (out_buf demo_gz_read1) = 1 \<and> err demo_gz_read1 = WTAP_ERR_DECOMPRESS
   \<and> map_option fst (file_read demo_backend 1 demo_gz_read1) = Some 1
   \<and> map_option (fst \<circ> snd) (file_read demo_backend 1 demo_gz_read1) = Some [0x69]
   \<and> avail (out_buf demo_gz_read2) = 0 \<and> err demo_gz_read2 = WTAP_ERR_DECOMPRESS
   \<and> file_read demo_backend 1 demo_gz_read2 = Some (- 1, [], demo_gz_read2)"
proof -
  have a1: "\<not> seek_pending demo_gz_fresh"
    by (simp add: demo_gz_fresh_def reader_defs)
  have a2: "compression (snd (gz_head demo_backend demo_gz_fresh)) = ZLIB"
    by (simp add: demo_gz_fresh_def demo_gzip_def reader_defs cong: eval_congs)
  have a3: "map_option (err \<circ> snd) (fill_out_buffer demo_backend (snd (gz_head demo_backend demo_gz_fresh)))
        = Some WTAP_ERR_DECOMPRESS"
    by (simp add: demo_gz_fresh_def demo_gzip_def reader_defs zlib_read_loop.simps cong: eval_congs)
  then obtain r s1
    where f: "fill_out_buffer demo_backend (snd (gz_head demo_backend demo_gz_fresh)) = Some (r, s1)"
    by (cases "fill_out_buffer demo_backend (snd (gz_head demo_backend demo_gz_fresh))") auto
  have b1: "map_option fst (file_read demo_backend 1 demo_gz_fresh) = Some 1"
    by (simp add: demo_gz_fresh_def demo_gzip_def reader_defs zlib_read_loop.simps
          file_read_loop.simps cong: eval_congs)
  then obtain copied s' where rd: "file_read demo_backend 1 demo_gz_fresh = Some (1, copied, s')"
    by (cases "file_read demo_backend 1 demo_gz_fresh") auto
  have c: "avail (out_buf demo_gz_read1) = 1" "err demo_gz_read1 = WTAP_ERR_DECOMPRESS"
    "\<not> seek_pending demo_gz_read1" "nxt (out_buf demo_gz_read1) = 1"
    "bytes_at (buf (out_buf demo_gz_read1)) 1 1 = [0x69]"
    by (simp_all add: demo_gz_read1_def demo_gz_fresh_def demo_gzip_def reader_defs
          zlib_read_loop.simps file_read_loop.simps cong: eval_congs)
  have d: "avail (out_buf demo_gz_read2) = 0" "err demo_gz_read2 = WTAP_ERR_DECOMPRESS"
    "\<not> seek_pending demo_gz_read2"
    by (simp_all add: demo_gz_read2_def demo_gz_read1_def demo_gz_fresh_def demo_gzip_def reader_defs
          zlib_read_loop.simps file_read_loop.simps cong: eval_congs)
  note t1 = file_read_returns[of demo_backend 1 demo_gz_fresh 1 copied s']
  from t1 rd a1 have b2: "length copied = 1" by simp
  from file_read_returns[of demo_backend _ "snd (gz_head demo_backend demo_gz_fresh)" _ _ _ r s1] f a2
  have b3: "r = 0" by blast
  from file_read_returns[of demo_backend 1 demo_gz_read1] c
  have e: "file_read demo_backend 1 demo_gz_read1 =
          Some (1, [0x69],
                demo_gz_read1\<lparr>out_buf := (out_buf demo_gz_read1)\<lparr>nxt := 2, avail := 0\<rparr>,
                  pos := pos demo_gz_read1 + 1\<rparr>)"
    by simp
  from file_read_returns[of demo_backend 1 demo_gz_read2] d
  have g: "file_read demo_backend 1 demo_gz_read2 = Some (- 1, [], demo_gz_read2)" by simp
  show ?thesis
    using a1 a2 a3 f b3 rd b2 c(1,2) e d(1,2) g by simp
qed

text \<open>
  A gzip file holding the two bytes \<open>68 69\<close> with a trailer CRC that does not match: a
  \<^verbatim>\<open>file_read\<close> for 10 bytes copies the two bytes and then returns -1.
\<close>

theorem file_read_minus_one_after_copying:
  "map_option fst (file_read demo_backend 10 demo_gz_fresh) = Some (- 1)
   \<and> map_option (fst \<circ> snd) (file_read demo_backend 10 demo_gz_fresh) = Some [0x68, 0x69]"
  by (simp add: demo_gz_fresh_def demo_gzip_def reader_defs zlib_read_loop.simps
        file_read_loop.simps cong: eval_congs)

text \<open>
  C2 (amended). For a \<^verbatim>\<open>file_read\<close> of \<open>len\<close> bytes that returns a count \<open>ret \<ge> 0\<close>,
  \<^verbatim>\<open>file_tell\<close> before the call plus \<open>ret\<close> is \<^verbatim>\<open>file_tell\<close> after it, except when a
  pending skip runs into the end of the file before it is done: such a read returns 0,
  leaves the reader at end of file, and \<^verbatim>\<open>file_tell\<close> falls back to the position of the
  end of the data.
\<close>

theorem file_tell_after_read:
  "file_read be len s = Some (ret, copied, s') \<Longrightarrow> 0 \<le> ret \<Longrightarrow> len < 2 ^ 32 \<Longrightarrow>
     (seek_pending s \<longrightarrow> 0 \<le> skip s) \<Longrightarrow>
     file_tell s + ret = file_tell s' \<or>
     (seek_pending s \<and> ret = 0 \<and> file_eof s' \<and> file_tell s' < file_tell s)"
proof -
  assume r: "file_read be len s = Some (ret, copied, s')" and ret: "0 \<le> ret"
    and l: "len < 2 ^ 32" and sk: "seek_pending s \<longrightarrow> 0 \<le> skip s"
  have loop: "pos s' = pos f1 + ret \<and> seek_pending s' = seek_pending f1 \<and> skip s' = skip f1"
    if "file_read_loop be len 0 [] f1 = Some (ret, copied, s')" for f1
  proof -
    from file_read_loop_ok[OF that] obtain k
      where k: "k \<le> len" "pos s' = pos f1 + int k" "seek_pending s' = seek_pending f1"
        "skip s' = skip f1" "ret = - 1 \<or> ret = to_int k"
      by (auto simp: read_ok_def Let_def)
    from k(5) ret have "ret = to_int k" by auto
    moreover have "k < 2 ^ 32" using k(1) l by simp
    ultimately have "ret = int k" using ret to_int_nonneg[of k] by simp
    with k show ?thesis by simp
  qed
  show ?thesis
  proof (cases "len = 0")
    case True
    with r show ?thesis by (auto simp: file_read_def)
  next
    case False
    note len = this
    show ?thesis
    proof (cases "seek_pending s")
      case False
      with r len have "file_read_loop be len 0 [] s = Some (ret, copied, s')"
        by (simp add: file_read_def)
      from loop[OF this] False show ?thesis by (simp add: file_tell_def)
    next
      case True
      with sk have s0: "0 \<le> skip s" by simp
      from r len True obtain x f1
        where g: "gz_skip be (skip s) (s\<lparr>seek_pending := False\<rparr>) = Some (x, f1)"
          and rest: "(if x = - 1 then Some (- 1, [], f1) else file_read_loop be len 0 [] f1)
                       = Some (ret, copied, s')"
        by (auto simp: file_read_def split: option.splits)
      from rest ret have x: "x \<noteq> - 1" by (auto split: if_splits)
      with rest have lp: "file_read_loop be len 0 [] f1 = Some (ret, copied, s')" by simp
      from gz_skip_ok[OF g s0] x
      have f1: "seek_pending f1 = False" "pos f1 \<le> pos s + skip s"
        "pos f1 = pos s + skip s \<or>
           (avail (out_buf f1) = 0 \<and> err f1 = NO_ERROR \<and> eof f1 \<and> avail (in_buf f1) = 0)"
        by (auto simp: skip_ok_def Let_def)
      show ?thesis
      proof (cases "pos f1 = pos s + skip s")
        case True
        with loop[OF lp] f1(1) \<open>seek_pending s\<close> show ?thesis by (simp add: file_tell_def)
      next
        case False
        with f1 have e: "avail (out_buf f1) = 0" "err f1 = NO_ERROR" "eof f1" "avail (in_buf f1) = 0"
          and lt: "pos f1 < pos s + skip s" by auto
        from lp file_read_loop_at_eof[OF e, of be len 0 "[]"]
        have "ret = 0" "s' = f1" by (simp_all add: to_int_def)
        with e f1(1) lt \<open>seek_pending s\<close> show ?thesis
          by (simp add: file_tell_def file_eof_def)
      qed
    qed
  qed
qed

theorem file_tell_after_read_witness:
  "seek_pending demo_abc_seek2 \<and> 0 \<le> skip demo_abc_seek2 \<and> file_tell demo_abc_seek2 = 2
   \<and> map_option fst (file_read demo_backend 1 demo_abc_seek2) = Some 1
   \<and> map_option (fst \<circ> snd) (file_read demo_backend 1 demo_abc_seek2) = Some [0x43]
   \<and> map_option (file_tell \<circ> snd \<circ> snd) (file_read demo_backend 1 demo_abc_seek2) = Some 3
   \<and> seek_pending demo_abc_seek8 \<and> 0 \<le> skip demo_abc_seek8
   \<and> map_option fst (file_read demo_backend 1 demo_abc_seek8) = Some 0
   \<and> map_option (file_eof \<circ> snd \<circ> snd) (file_read demo_backend 1 demo_abc_seek8) = Some True"
proof -
  have a: "seek_pending demo_abc_seek2" "skip demo_abc_seek2 = 2" "pos demo_abc_seek2 = 0"
    by (simp_all add: demo_abc_seek2_def demo_abc_def reader_defs cong: eval_congs)
  have b: "map_option fst (file_read demo_backend 1 demo_abc_seek2) = Some 1"
    "map_option (fst \<circ> snd) (file_read demo_backend 1 demo_abc_seek2) = Some [0x43]"
    by (simp_all add: demo_abc_seek2_def demo_abc_def reader_defs gz_skip.simps
          file_read_loop.simps cong: eval_congs)
  then obtain s' where rd: "file_read demo_backend 1 demo_abc_seek2 = Some (1, [0x43], s')"
    by (cases "file_read demo_backend 1 demo_abc_seek2") auto
  from file_tell_after_read[OF rd] a have "file_tell demo_abc_seek2 + 1 = file_tell s'"
    by simp
  with a rd have c: "file_tell demo_abc_seek2 = 2"
    "map_option (file_tell \<circ> snd \<circ> snd) (file_read demo_backend 1 demo_abc_seek2) = Some 3"
    by (simp_all add: file_tell_def)
  have d: "seek_pending demo_abc_seek8" "skip demo_abc_seek8 = 8" "pos demo_abc_seek8 = 0"
    by (simp_all add: demo_abc_seek8_def demo_abc_def reader_defs cong: eval_congs)
  have e: "map_option fst (file_read demo_backend 1 demo_abc_seek8) = Some 0"
    "map_option (file_tell \<circ> snd \<circ> snd) (file_read demo_backend 1 demo_abc_seek8) = Some 5"
    by (simp_all add: demo_abc_seek8_def demo_abc_def reader_defs gz_skip.simps
          file_read_loop.simps cong: eval_congs)
  then obtain copied s8 where rd8: "file_read demo_backend 1 demo_abc_seek8 = Some (0, copied, s8)"
    and t8: "file_tell s8 = 5"
    by (cases "file_read demo_backend 1 demo_abc_seek8") auto
  from file_tell_after_read[OF rd8] d t8 have "file_eof s8" by (simp add: file_tell_def)
  with rd8 have f: "map_option (file_eof \<circ> snd \<circ> snd) (file_read demo_backend 1 demo_abc_seek8) = Some True"
    by simp
  from a b c d e f show ?thesis by simp
qed

text \<open>
  The five bytes \<open>ABCDE\<close> after \<^verbatim>\<open>file_seek(8, SEEK_SET)\<close>: \<^verbatim>\<open>file_tell\<close> is 8, a
  \<^verbatim>\<open>file_read\<close> for one byte returns 0, and \<^verbatim>\<open>file_tell\<close> is 5 after it.
\<close>

theorem file_tell_falls_back_at_eof:
  "file_tell demo_abc_seek8 = 8
   \<and> map_option fst (file_read demo_backend 1 demo_abc_seek8) = Some 0
   \<and> map_option (file_tell \<circ> snd \<circ> snd) (file_read demo_backend 1 demo_abc_seek8) = Some 5"
  by (simp add: demo_abc_seek8_def demo_abc_def reader_defs gz_skip.simps
        file_read_loop.simps cong: eval_congs)

subsection \<open>Peeking at the next byte\<close>

text \<open>
  C9 (amended). When \<^verbatim>\<open>file_peekc\<close> returns a byte \<open>b \<ge> 0\<close>, \<^verbatim>\<open>file_tell\<close> is the same
  before and after the peek. If the reader has no error recorded after the peek, an
  immediately following \<^verbatim>\<open>file_getc\<close> returns the same \<open>b\<close> and advances \<^verbatim>\<open>file_tell\<close>
  by exactly one. If the peek recorded an error while it filled the output buffer (the
  trailer of a deflate stream that does not match), the following \<^verbatim>\<open>file_getc\<close> returns
  -1 and leaves the reader as it is.
\<close>

theorem file_getc_after_peekc:
  "file_peekc be s = Some (b, s1) \<Longrightarrow> 0 \<le> b \<Longrightarrow> (seek_pending s \<longrightarrow> 0 \<le> skip s) \<Longrightarrow>
     file_tell s1 = file_tell s
     \<and> (err s1 = NO_ERROR \<longrightarrow>
          (\<exists>s2. file_getc be s1 = Some (b, s2) \<and> file_tell s2 = file_tell s1 + 1))
     \<and> (err s1 \<noteq> NO_ERROR \<longrightarrow> file_getc be s1 = Some (- 1, s1))"
proof -
  assume p: "file_peekc be s = Some (b, s1)" and b: "0 \<le> b"
    and sk: "seek_pending s \<longrightarrow> 0 \<le> skip s"
  have getc: "(err s1 = NO_ERROR \<longrightarrow>
          (\<exists>s2. file_getc be s1 = Some (b, s2) \<and> file_tell s2 = file_tell s1 + 1))
     \<and> (err s1 \<noteq> NO_ERROR \<longrightarrow> file_getc be s1 = Some (- 1, s1))"
    if "avail (out_buf s1) \<noteq> 0" "b = uint (buf (out_buf s1) ! nxt (out_buf s1))"
    using that by (simp add: file_getc_def file_tell_def)
  from p b have e: "err s = NO_ERROR" by (auto simp: file_peekc_def split: if_splits)
  show ?thesis
  proof (cases "avail (out_buf s) \<noteq> 0")
    case True
    with p e have "s1 = s" "b = uint (buf (out_buf s) ! nxt (out_buf s))"
      by (auto simp: file_peekc_def)
    with True getc show ?thesis by simp
  next
    case False
    with p e obtain x f1
      where g: "(if seek_pending s then gz_skip be (skip s) (s\<lparr>seek_pending := False\<rparr>)
                 else Some (0, s)) = Some (x, f1)"
        and rest: "(if x = - 1 then Some (- 1, f1) else file_peekc_loop be f1) = Some (b, s1)"
      by (auto simp: file_peekc_def split: option.splits)
    from rest b have x: "x \<noteq> - 1" by (auto split: if_splits)
    with rest have lp: "file_peekc_loop be f1 = Some (b, s1)" by simp
    from file_peekc_loop_ok[OF lp] b
    have l: "fill_frame f1 s1" "avail (out_buf s1) \<noteq> 0"
      "b = uint (buf (out_buf s1) ! nxt (out_buf s1))" by auto
    have "file_tell f1 = file_tell s"
    proof (cases "seek_pending s")
      case False
      with g show ?thesis by simp
    next
      case True
      with sk have s0: "0 \<le> skip s" by simp
      from g True have gs: "gz_skip be (skip s) (s\<lparr>seek_pending := False\<rparr>) = Some (x, f1)"
        by simp
      from gz_skip_ok[OF gs s0] x
      have f1: "seek_pending f1 = False"
        "pos f1 = pos s + skip s \<or>
           (avail (out_buf f1) = 0 \<and> err f1 = NO_ERROR \<and> eof f1 \<and> avail (in_buf f1) = 0)"
        by (auto simp: skip_ok_def Let_def)
      have "pos f1 = pos s + skip s"
      proof (rule ccontr)
        assume "pos f1 \<noteq> pos s + skip s"
        with f1 have "avail (out_buf f1) = 0" "err f1 = NO_ERROR" "eof f1" "avail (in_buf f1) = 0"
          by auto
        from file_peekc_loop_at_eof[OF this, of be] lp b show False by simp
      qed
      with f1(1) True show ?thesis by (simp add: file_tell_def)
    qed
    moreover from l(1) have "file_tell s1 = file_tell f1"
      by (simp add: fill_frame_def file_tell_def)
    ultimately show ?thesis using getc[OF l(2,3)] by simp
  qed
qed

theorem file_getc_after_peekc_witness:
  "map_option fst (file_peekc demo_backend demo_abc_seek2) = Some 0x43
   \<and> seek_pending demo_abc_seek2 \<and> 0 \<le> skip demo_abc_seek2
   \<and> map_option (file_tell \<circ> snd) (file_peekc demo_backend demo_abc_seek2) = Some 2
   \<and> map_option (err \<circ> snd) (file_peekc demo_backend demo_abc_seek2) = Some NO_ERROR
   \<and> map_option fst (file_getc demo_backend (snd (the (file_peekc demo_backend demo_abc_seek2))))
       = Some 0x43
   \<and> map_option fst (file_peekc demo_backend demo_gz_fresh) = Some 0x68
   \<and> err demo_gz_peeked \<noteq> NO_ERROR
   \<and> file_getc demo_backend demo_gz_peeked = Some (- 1, demo_gz_peeked)"
proof -
  have a: "seek_pending demo_abc_seek2" "skip demo_abc_seek2 = 2" "pos demo_abc_seek2 = 0"
    by (simp_all add: demo_abc_seek2_def demo_abc_def reader_defs cong: eval_congs)
  have b: "map_option fst (file_peekc demo_backend demo_abc_seek2) = Some 0x43"
    "map_option (err \<circ> snd) (file_peekc demo_backend demo_abc_seek2) = Some NO_ERROR"
    by (simp_all add: demo_abc_seek2_def demo_abc_def reader_defs gz_skip.simps
          file_peekc_loop.simps cong: eval_congs)
  then obtain s1 where pk: "file_peekc demo_backend demo_abc_seek2 = Some (0x43, s1)"
    and e1: "err s1 = NO_ERROR"
    by (cases "file_peekc demo_backend demo_abc_seek2") auto
  from file_getc_after_peekc[OF pk] a e1 obtain s2
    where t: "file_tell s1 = file_tell demo_abc_seek2"
      and g: "file_getc demo_backend s1 = Some (0x43, s2)"
    by auto
  from a have "file_tell demo_abc_seek2 = 2" by (simp add: file_tell_def)
  with t pk g have c: "map_option (file_tell \<circ> snd) (file_peekc demo_backend demo_abc_seek2) = Some 2"
    "map_option fst (file_getc demo_backend (snd (the (file_peekc demo_backend demo_abc_seek2))))
       = Some 0x43"
    by simp_all
  have d: "map_option fst (file_peekc demo_backend demo_gz_fresh) = Some 0x68"
    "\<not> seek_pending demo_gz_fresh"
    by (simp_all add: demo_gz_fresh_def demo_gzip_def reader_defs zlib_read_loop.simps
          file_peekc_loop.simps cong: eval_congs)
  have e: "err demo_gz_peeked = WTAP_ERR_DECOMPRESS"
    by (simp add: demo_gz_peeked_def demo_gz_fresh_def demo_gzip_def reader_defs
          zlib_read_loop.simps file_peekc_loop.simps cong: eval_congs)
  from d(1) have pk2: "file_peekc demo_backend demo_gz_fresh = Some (0x68, demo_gz_peeked)"
    by (cases "file_peekc demo_backend demo_gz_fresh") (auto simp: demo_gz_peeked_def)
  from file_getc_after_peekc[OF pk2] d(2) e
  have f: "file_getc demo_backend demo_gz_peeked = Some (- 1, demo_gz_peeked)" by simp
  from a b c d e f show ?thesis by simp
qed

text \<open>
  On the gzip file with the trailer CRC that does not match, \<^verbatim>\<open>file_peekc\<close> returns the
  first byte, \<open>68\<close>, and the \<^verbatim>\<open>file_getc\<close> that follows returns -1.
\<close>

theorem file_getc_fails_after_peekc:
  "map_option fst (file_peekc demo_backend demo_gz_fresh) = Some 0x68
   \<and> map_option fst (file_getc demo_backend demo_gz_peeked) = Some (- 1)"
  by (simp add: demo_gz_peeked_def demo_gz_fresh_def demo_gzip_def reader_defs
        zlib_read_loop.simps file_peekc_loop.simps cong: eval_congs)

subsection \<open>Seeking\<close>

lemma fast_seek_reset_pending [simp]:
  "seek_pending (fast_seek_reset s) = seek_pending s" "pos (fast_seek_reset s) = pos s"
  "skip (fast_seek_reset s) = skip s"
  by (simp_all add: fast_seek_reset_def split: option.splits)

lemma file_seek_slow_tell:
  assumes "file_seek_slow offset s = (r, e, s')" and "\<not> seek_pending s" and "0 \<le> r"
  shows "file_tell s' = r"
  using assms
  by (auto simp: file_seek_slow_def file_tell_def Let_def gz_reset_def
      split: if_splits sum.splits prod.splits)

lemma file_seek_fast_tell:
  fixes be :: "'z backend" and s s' :: "'z wtap_reader"
  assumes "file_seek_fast be here offset s = (r, e, s')" and "0 \<le> r"
  shows "file_tell s' = r"
proof -
  obtain off off2 where oo: "(if fsp_compression here = ZLIB
             then (fsp_in here - (if fsp_bits here \<noteq> 0 then 1 else 0), fsp_out here)
             else if fsp_compression here = GZIP_AFTER_HEADER then (fsp_in here, fsp_out here)
             else (fsp_in here + ((pos s + offset) - fsp_out here), pos s + offset)) = (off, off2)"
    by (cases "(if fsp_compression here = ZLIB
             then (fsp_in here - (if fsp_bits here \<noteq> 0 then 1 else 0), fsp_out here)
             else if fsp_compression here = GZIP_AFTER_HEADER then (fsp_in here, fsp_out here)
             else (fsp_in here + ((pos s + offset) - fsp_out here), pos s + offset))") auto
  show ?thesis
  proof (cases "ws_lseek64 (fd s) off SEEK_SET")
    case (Inl x)
    with assms oo show ?thesis by (simp add: file_seek_fast_def)
  next
    case (Inr fd1)
    define f1 where "f1 = fast_seek_reset (s\<lparr>fd := fd1\<rparr>)"
    define f2 where "f2 = f1\<lparr>raw_pos := off, out_buf := buf_reset (out_buf f1), eof := False,
                          seek_pending := False, err := NO_ERROR, err_info := None,
                          in_buf := buf_reset (in_buf f1)\<rparr>"
    define rr :: "(int \<times> errcode option \<times> 'z wtap_reader) + 'z wtap_reader" where "rr =
                    (if fsp_compression here = ZLIB then
                       (let f3 = f2\<lparr>strm := (inflateReset be (strm f2))
                                       \<lparr>adler := fsp_adler here,
                                        total_out := unat (fsp_total_out here)\<rparr>\<rparr>;
                            p =
                              (if fsp_bits here \<noteq> 0 then
                                 (let (ret, f4) = GZ_GETC f3
                                  in if ret = - 1
                                     then Inl (- 1,
                                            Some (if err f4 = NO_ERROR then WTAP_ERR_SHORT_READ
                                                  else err f4), f4)
                                     else Inr (f4\<lparr>strm := (strm f4)
                                                 \<lparr>zstate := inflatePrime_fn be (zstate (strm f4))
                                                     (fsp_bits here)
                                                     (drop_bit (8 - fsp_bits here) ret)\<rparr>\<rparr>))
                               else Inr f3)
                        in case p of
                             Inl x \<Rightarrow> Inl x
                           | Inr f5 \<Rightarrow>
                               Inr (f5\<lparr>strm := (strm f5)
                                        \<lparr>zstate := inflateSetDictionary_fn be (zstate (strm f5))
                                            (take ZLIB_WINSIZE (fsp_window here))\<rparr>,
                                       compression := ZLIB\<rparr>))
                     else if fsp_compression here = GZIP_AFTER_HEADER then
                       Inr (f2\<lparr>strm := (inflateReset be (strm f2))\<lparr>adler := 0\<rparr>,
                               compression := ZLIB\<rparr>)
                     else Inr (f2\<lparr>compression := fsp_compression here\<rparr>))"
    have res: "(r, e, s') = (case rr of
                   Inl x \<Rightarrow> x
                 | Inr f6 \<Rightarrow>
                     (let offset1 = (pos f6 + offset) - off2;
                          f7 = f6\<lparr>pos := off2\<rparr>;
                          f8 = (if offset1 \<noteq> 0 then f7\<lparr>seek_pending := True, skip := offset1\<rparr>
                                else f7)
                      in (pos f8 + offset1, None, f8)))"
      using assms(1) oo Inr unfolding file_seek_fast_def rr_def f2_def f1_def Let_def
      by simp
    have sp: "\<not> seek_pending f2" by (simp add: f2_def)
    have good: "\<not> seek_pending f6" and bad: "True" if "rr = Inr f6" for f6
    proof -
      have g: "\<not> seek_pending f4" if "GZ_GETC f3 = (ret, f4)" "\<not> seek_pending f3" for f3 f4 :: "'z wtap_reader" and ret
        using GZ_GETC_io[of f3] that by (simp add: io_in_def)
      from that sp show "\<not> seek_pending f6"
        unfolding rr_def Let_def
        by (auto split: if_splits prod.splits sum.splits dest!: g)
    qed simp
    have neg: "fst x = - 1" if "rr = Inl x" for x
      using that unfolding rr_def Let_def
      by (auto split: if_splits prod.splits sum.splits)
    show ?thesis
    proof (cases rr)
      case (Inl x)
      with res neg[OF Inl] assms(2) show ?thesis by auto
    next
      case (Inr f6)
      with res good[OF Inr] show ?thesis
        by (auto simp: Let_def file_tell_def split: if_splits)
    qed
  qed
qed

lemma file_seek_offset_tell:
  assumes "file_seek_offset be offset s = Some (r, e, s')" and "0 \<le> r"
  shows "file_tell s' = r"
proof -
  define fl where "fl = s\<lparr>seek_pending := False\<rparr>"
  have np: "\<not> seek_pending fl" by (simp add: fl_def)
  consider (zero) "offset = 0"
    | (bwd) "offset \<noteq> 0" "offset < 0 \<and> - offset \<le> int (offset_in_buffer (out_buf fl))"
    | (fwd) "offset \<noteq> 0" "\<not> (offset < 0 \<and> - offset \<le> int (offset_in_buffer (out_buf fl)))"
        "\<not> offset < 0 \<and> offset < int (avail (out_buf fl))"
    | (far) "offset \<noteq> 0" "\<not> (offset < 0 \<and> - offset \<le> int (offset_in_buffer (out_buf fl)))"
        "\<not> (\<not> offset < 0 \<and> offset < int (avail (out_buf fl)))"
    by blast
  then show ?thesis
  proof cases
    case zero
    with assms show ?thesis by (auto simp: file_seek_offset_def file_tell_def)
  next
    case bwd
    with assms(1) show ?thesis
      unfolding file_seek_offset_def fl_def[symmetric] Let_def
      using np by (auto simp: file_tell_def)
  next
    case fwd
    with assms(1) show ?thesis
      unfolding file_seek_offset_def fl_def[symmetric] Let_def
      using np by (auto simp: file_tell_def)
  next
    case far
    with assms(1) have "(case fast_seek_find fl (pos fl + offset) of
              None \<Rightarrow> None
            | Some None \<Rightarrow> Some (file_seek_slow offset fl)
            | Some (Some here) \<Rightarrow>
                if offset < 0 \<or> offset > SPAN \<or> fsp_compression here = UNCOMPRESSED
                then Some (file_seek_fast be here offset fl)
                else Some (file_seek_slow offset fl)) = Some (r, e, s')"
      unfolding file_seek_offset_def fl_def[symmetric] Let_def by simp
    then consider "file_seek_slow offset fl = (r, e, s')"
      | here where "file_seek_fast be here offset fl = (r, e, s')"
      by (auto split: option.splits if_splits)
    then show ?thesis
    proof cases
      case 1
      from file_seek_slow_tell[OF 1 np assms(2)] show ?thesis .
    next
      case 2
      from file_seek_fast_tell[OF 2 assms(2)] show ?thesis .
    qed
  qed
qed

text \<open>
  A \<^verbatim>\<open>file_seek\<close> that succeeds returns what \<^verbatim>\<open>file_tell\<close> returns next, on every path but
  one: \<^verbatim>\<open>SEEK_END\<close> with offset 0 while a skip is pending.
\<close>

lemma file_seek_tell:
  assumes "file_seek be offset whence s = Some (r, e, s')" and "0 \<le> r"
    and "\<not> (whence = SEEK_END \<and> offset = 0 \<and> seek_pending s \<and> skip s \<noteq> 0)"
  shows "file_tell s' = r"
proof (cases whence)
  case SEEK_SET
  with assms(1) have "file_seek_offset be (offset - pos s) s = Some (r, e, s')"
    by (simp add: file_seek_def)
  from file_seek_offset_tell[OF this assms(2)] show ?thesis .
next
  case SEEK_CUR
  with assms(1)
  have "file_seek_offset be (if seek_pending s then offset + skip s else offset) s = Some (r, e, s')"
    by (simp add: file_seek_def)
  from file_seek_offset_tell[OF this assms(2)] show ?thesis .
next
  case SEEK_END
  with assms(1) obtain x f1 where g: "gz_skip be G_MAXINT64 s = Some (x, f1)"
    and rest: "(if x = - 1 then Some (- 1, Some (err f1), f1)
               else if offset = 0 then Some (pos f1, None, f1)
               else file_seek_offset be offset f1) = Some (r, e, s')"
    by (auto simp: file_seek_def split: option.splits)
  have "skip_ok G_MAXINT64 s (x, f1)"
    by (rule gz_skip_ok[OF g]) (simp add: G_MAXINT64_def)
  then have k: "seek_pending f1 = seek_pending s" "skip f1 = skip s"
    by (simp_all add: skip_ok_def Let_def)
  from rest assms(2) have x: "x \<noteq> - 1" by (auto split: if_splits)
  show ?thesis
  proof (cases "offset = 0")
    case True
    with rest x have "pos f1 = r" "f1 = s'" by auto
    with k assms(3) SEEK_END True show ?thesis by (auto simp: file_tell_def)
  next
    case False
    with rest x have "file_seek_offset be offset f1 = Some (r, e, s')" by simp
    from file_seek_offset_tell[OF this assms(2)] show ?thesis .
  qed
qed

text \<open>
  C7. A reader on the five bytes \<open>ABCDE\<close>, with no fast-seek array: \<^verbatim>\<open>file_seek(3, SEEK_SET)\<close>
  returns 3 and leaves a skip of 3 pending. The following \<^verbatim>\<open>file_seek(0, SEEK_END)\<close> reads
  to the end of the file and returns 5 from its \<^verbatim>\<open>if (offset == 0) return file->pos;\<close>,
  which comes before \<^verbatim>\<open>file->seek_pending = FALSE\<close>: the skip is still pending, and the
  \<^verbatim>\<open>file_tell\<close> that follows returns 8, not the 5 that the seek returned.
\<close>

theorem file_seek_end_keeps_pending_skip:
  "map_option fst (file_seek demo_backend 3 SEEK_SET demo_abc) = Some 3
   \<and> file_tell demo_abc_seek3 = 3
   \<and> map_option fst (file_seek demo_backend 0 SEEK_END demo_abc_seek3) = Some 5
   \<and> map_option (file_tell \<circ> snd \<circ> snd) (file_seek demo_backend 0 SEEK_END demo_abc_seek3) = Some 8"
  by (simp add: demo_abc_seek3_def demo_abc_def reader_defs gz_skip.simps cong: eval_congs)

subsection \<open>Seeking within the output buffer\<close>

text \<open>
  C6 (amended). For a \<^verbatim>\<open>file_seek\<close> with \<^verbatim>\<open>SEEK_SET\<close> or \<^verbatim>\<open>SEEK_CUR\<close> whose normalised
  offset \<open>delta\<close> (\<^verbatim>\<open>offset - file->pos\<close> for \<^verbatim>\<open>SEEK_SET\<close>; \<^verbatim>\<open>offset\<close>, plus
  \<^verbatim>\<open>file->skip\<close> when a skip is pending, for \<^verbatim>\<open>SEEK_CUR\<close>) lies within
  \<open>[- offset_in_buffer(out), + out.avail)\<close>, the seek returns \<open>pos + delta\<close> and is done
  inside the output buffer: \<open>out.next\<close>, \<open>out.avail\<close> and \<open>pos\<close> are moved by \<open>delta\<close>, the
  pending-skip flag is cleared, and every other field of the reader is as before: the
  descriptor, \<open>raw_pos\<close>, \<open>eof\<close>, \<open>err\<close>, the input buffer, the decoder state and the
  fast-seek array. \<^verbatim>\<open>out.next - out.buf\<close> and \<^verbatim>\<open>out.avail\<close> are \<^verbatim>\<open>guint\<close>s, below
  \<open>2 ^ 32\<close>. (With \<^verbatim>\<open>SEEK_END\<close> the seek first reads to the end of the file.)
\<close>

theorem file_seek_within_buffer:
  "whence \<noteq> SEEK_END \<Longrightarrow>
   delta = (if whence = SEEK_SET then offset - pos s
            else if seek_pending s then offset + skip s else offset) \<Longrightarrow>
   - int (offset_in_buffer (out_buf s)) \<le> delta \<Longrightarrow> delta < int (avail (out_buf s)) \<Longrightarrow>
   nxt (out_buf s) < 2 ^ 32 \<Longrightarrow> avail (out_buf s) < 2 ^ 32 \<Longrightarrow>
   file_seek be offset whence s =
     Some (pos s + delta, None,
           s\<lparr>seek_pending := False,
             out_buf := (out_buf s)\<lparr>avail := nat (int (avail (out_buf s)) - delta),
                                    nxt := nat (int (nxt (out_buf s)) + delta)\<rparr>,
             pos := pos s + delta\<rparr>)"
proof -
  assume w: "whence \<noteq> SEEK_END"
    and d: "delta = (if whence = SEEK_SET then offset - pos s
            else if seek_pending s then offset + skip s else offset)"
    and lo: "- int (offset_in_buffer (out_buf s)) \<le> delta"
    and hi: "delta < int (avail (out_buf s))"
    and n: "nxt (out_buf s) < 2 ^ 32" and a: "avail (out_buf s) < 2 ^ 32"
  have fs: "file_seek be offset whence s = file_seek_offset be delta s"
    using w d by (cases whence) (simp_all add: file_seek_def)
  have "file_seek_offset be delta s =
     Some (pos s + delta, None,
           s\<lparr>seek_pending := False,
             out_buf := (out_buf s)\<lparr>avail := nat (int (avail (out_buf s)) - delta),
                                    nxt := nat (int (nxt (out_buf s)) + delta)\<rparr>,
             pos := pos s + delta\<rparr>)"
  proof (cases "delta = 0")
    case True
    then show ?thesis by (simp add: file_seek_offset_def)
  next
    case False
    show ?thesis
    proof (cases "delta < 0")
      case True
      from lo n have "- delta < 2 ^ 32" by (simp add: offset_in_buffer_def)
      with True have g: "to_guint (- delta) = nat (- delta)" by (simp add: to_guint_def)
      from lo True have le: "nat (- delta) \<le> nxt (out_buf s)" by (simp add: offset_in_buffer_def)
      have e1: "avail (out_buf s) + nat (- delta) = nat (int (avail (out_buf s)) - delta)"
        using True by simp
      have e2: "nxt (out_buf s) - nat (- delta) = nat (int (nxt (out_buf s)) + delta)"
        using True le by simp
      have e3: "pos s - int (nat (- delta)) = pos s + delta" using True by simp
      from True False lo show ?thesis
        by (simp add: file_seek_offset_def Let_def g e1 e2 e3)
    next
      case pos: False
      with False have p: "0 < delta" by simp
      with hi a have "delta < 2 ^ 32" by simp
      with p have g: "to_guint delta = nat delta" by (simp add: to_guint_def)
      from hi p have le: "nat delta < avail (out_buf s)" by simp
      have e1: "guint_sub (avail (out_buf s)) (nat delta) = nat (int (avail (out_buf s)) - delta)"
        using le a p by (simp add: guint_sub_def nat_diff_distrib)
      have e2: "nxt (out_buf s) + nat delta = nat (int (nxt (out_buf s)) + delta)"
        using p by (simp add: nat_add_distrib)
      from p hi show ?thesis
        by (simp add: file_seek_offset_def Let_def g e1 e2)
    qed
  qed
  with fs show ?thesis by simp
qed

theorem file_seek_within_buffer_witness:
  "nxt (out_buf demo_abc_read1) = 1 \<and> avail (out_buf demo_abc_read1) = 4
   \<and> pos demo_abc_read1 = 1 \<and> \<not> seek_pending demo_abc_read1
   \<and> map_option fst (file_seek demo_backend 3 SEEK_SET demo_abc_read1) = Some 3
   \<and> map_option (fd \<circ> snd \<circ> snd) (file_seek demo_backend 3 SEEK_SET demo_abc_read1)
        = Some (fd demo_abc_read1)
   \<and> map_option (eof \<circ> snd \<circ> snd) (file_seek demo_backend 3 SEEK_SET demo_abc_read1)
        = Some (eof demo_abc_read1)
   \<and> map_option (nxt \<circ> out_buf \<circ> snd \<circ> snd) (file_seek demo_backend (- 1) SEEK_CUR demo_abc_read1)
        = Some 0
   \<and> map_option fst (file_seek demo_backend (- 1) SEEK_CUR demo_abc_read1) = Some 0"
proof -
  have v: "nxt (out_buf demo_abc_read1) = 1" "avail (out_buf demo_abc_read1) = 4"
    "pos demo_abc_read1 = 1" "\<not> seek_pending demo_abc_read1"
    by (simp_all add: demo_abc_read1_def demo_abc_def reader_defs file_read_loop.simps
          cong: eval_congs)
  have f: "file_seek demo_backend 3 SEEK_SET demo_abc_read1 =
     Some (pos demo_abc_read1 + 2, None,
           demo_abc_read1\<lparr>seek_pending := False,
             out_buf := (out_buf demo_abc_read1)
                \<lparr>avail := nat (int (avail (out_buf demo_abc_read1)) - 2),
                 nxt := nat (int (nxt (out_buf demo_abc_read1)) + 2)\<rparr>,
             pos := pos demo_abc_read1 + 2\<rparr>)"
    by (rule file_seek_within_buffer) (simp_all add: v offset_in_buffer_def)
  have b: "file_seek demo_backend (- 1) SEEK_CUR demo_abc_read1 =
     Some (pos demo_abc_read1 + (- 1), None,
           demo_abc_read1\<lparr>seek_pending := False,
             out_buf := (out_buf demo_abc_read1)
                \<lparr>avail := nat (int (avail (out_buf demo_abc_read1)) - (- 1)),
                 nxt := nat (int (nxt (out_buf demo_abc_read1)) + (- 1))\<rparr>,
             pos := pos demo_abc_read1 + (- 1)\<rparr>)"
    by (rule file_seek_within_buffer) (simp_all add: v offset_in_buffer_def)
  from v show ?thesis by (simp add: f b)
qed

text \<open>
  One byte of \<open>ABCDE\<close> has been read: the position is 1, with one byte of the output buffer
  behind it and four ahead. \<^verbatim>\<open>file_seek(-1, SEEK_END)\<close> goes to position 4, which is
  in the buffer, and has read the descriptor on the way: \<open>eof\<close> is now set.
\<close>

theorem file_seek_end_reads_the_file:
  "pos demo_abc_read1 = 1 \<and> offset_in_buffer (out_buf demo_abc_read1) = 1
   \<and> avail (out_buf demo_abc_read1) = 4 \<and> \<not> eof demo_abc_read1
   \<and> map_option fst (file_seek demo_backend (- 1) SEEK_END demo_abc_read1) = Some 4
   \<and> map_option (eof \<circ> snd \<circ> snd) (file_seek demo_backend (- 1) SEEK_END demo_abc_read1)
        = Some True"
  by (simp add: demo_abc_read1_def demo_abc_def reader_defs gz_skip.simps file_read_loop.simps
        cong: eval_congs)

subsection \<open>The gzip header\<close>

lemma stream_at_fill:
  assumes s: "stream_at s (b # bs)" and a: "avail (in_buf s) = 0"
  shows "\<exists>s'. fill_in_buffer s = (0, s') \<and> stream_at s' (b # bs) \<and> avail (in_buf s') \<noteq> 0
              \<and> io_in s s'"
proof -
  from s a have f: "events (fd s) = []" "err s = NO_ERROR" "\<not> eof s" "0 < bsize s"
    "bsize s < 2 ^ 32" "length (buf (in_buf s)) = bsize s" "nxt (in_buf s) \<le> bsize s"
    "drop (fpos (fd s)) (contents (fd s)) = b # bs"
    by (simp_all add: stream_at_def)
  define space_left where "space_left = guint_sub (bsize s) (bytes_in_buffer (in_buf s))"
  define read_ptr where "read_ptr = (if space_left = 0 then 0 else nxt (in_buf s))"
  define to_read where "to_read = (if space_left = 0 then bsize s else space_left)"
  define b1 where "b1 = (if space_left = 0 then buf_reset (in_buf s) else in_buf s)"
  define got where "got = take to_read (b # bs)"
  have sl: "space_left = bsize s - nxt (in_buf s)"
    using f(7) a by (simp add: space_left_def guint_sub_def bytes_in_buffer_def)
  have tr: "0 < to_read" "read_ptr + to_read \<le> bsize s"
    using f(4,7) by (auto simp: to_read_def read_ptr_def sl)
  have g: "got \<noteq> []" "length got \<le> to_read" using tr by (auto simp: got_def)
  have b1: "buf b1 = buf (in_buf s)" "nxt b1 = read_ptr" "avail b1 = 0"
    using a by (auto simp: b1_def read_ptr_def buf_reset_def sl)
  have wr: "ws_read (fd s) to_read = (Inr got, (fd s)\<lparr>fpos := fpos (fd s) + length got\<rparr>)"
    using f(1,8) by (simp add: ws_read_def got_def Let_def)
  define s' where "s' = (s\<lparr>fd := (fd s)\<lparr>fpos := fpos (fd s) + length got\<rparr>,
                            eof := (got = [] \<or> eof s),
                            raw_pos := raw_pos s + int (length got)\<rparr>)
                         \<lparr>in_buf := b1\<lparr>buf := memcpy (buf b1) read_ptr got,
                                      avail := avail b1 + length got\<rparr>\<rparr>"
  have br: "buf_read IN_BUF s = (0, s')"
  proof (cases "space_left = 0")
    case True
    with wr have w: "ws_read (fd s) (bsize s) = (Inr got, (fd s)\<lparr>fpos := fpos (fd s) + length got\<rparr>)"
      by (simp add: to_read_def)
    show ?thesis
      by (simp add: buf_read_def get_buf_def set_buf_def Let_def space_left_def[symmetric] True w
            s'_def b1_def read_ptr_def a buf_reset_def)
  next
    case False
    with wr have w: "ws_read (fd s) space_left = (Inr got, (fd s)\<lparr>fpos := fpos (fd s) + length got\<rparr>)"
      by (simp add: to_read_def)
    show ?thesis
      by (simp add: buf_read_def get_buf_def set_buf_def Let_def space_left_def[symmetric] False w
            s'_def b1_def read_ptr_def a buf_reset_def)
  qed
  have fi: "fill_in_buffer s = (0, s')"
    using f(2,3) br by (simp add: fill_in_buffer_def)
  have len: "read_ptr + length got \<le> length (buf (in_buf s))"
    using g(2) tr(2) f(6) by simp
  have m: "take (length got) (drop read_ptr (memcpy (buf (in_buf s)) read_ptr got)) = got"
    using len by (simp add: memcpy_def)
  have ml: "length (memcpy (buf (in_buf s)) read_ptr got) = length (buf (in_buf s))"
    using len by (simp add: memcpy_def)
  have dr: "got @ drop (fpos (fd s) + length got) (contents (fd s)) = b # bs"
  proof -
    have "drop (fpos (fd s) + length got) (contents (fd s))
            = drop (length got) (drop (fpos (fd s)) (contents (fd s)))"
      by (simp add: add.commute)
    also have "\<dots> = drop (length got) (b # bs)" by (simp only: f(8))
    finally show ?thesis unfolding got_def
      by (metis append_take_drop_id length_take min.commute append_eq_conv_conj)
  qed
  have st: "stream_at s' (b # bs)"
    unfolding stream_at_def
    using f g len m ml dr tr by (simp add: s'_def b1)
  have av: "avail (in_buf s') \<noteq> 0" using g(1) by (simp add: s'_def b1)
  from fi st av fill_in_buffer_io[OF fi] show ?thesis by blast
qed

lemma stream_at_ensure:
  assumes "stream_at s (b # bs)"
  shows "\<exists>s'. (if avail (in_buf s) = 0 then fill_in_buffer s else (0, s)) = (0, s')
              \<and> stream_at s' (b # bs) \<and> avail (in_buf s') \<noteq> 0 \<and> io_in s s'"
proof (cases "avail (in_buf s) = 0")
  case True
  with stream_at_fill[OF assms True] show ?thesis by simp
next
  case False
  with assms show ?thesis by simp
qed

lemma stream_at_byte:
  assumes s: "stream_at s (b # bs)" and a: "avail (in_buf s) \<noteq> 0"
  shows "in_byte s = b \<and> stream_at (in_advance 1 s) bs \<and> io_in s (in_advance 1 s)
         \<and> err_info (in_advance 1 s) = err_info s"
proof -
  define l where "l = drop (nxt (in_buf s)) (buf (in_buf s))"
  from s have le: "nxt (in_buf s) + avail (in_buf s) \<le> length (buf (in_buf s))"
    and eq: "take (avail (in_buf s)) l @ drop (fpos (fd s)) (contents (fd s)) = b # bs"
    by (simp_all add: stream_at_def l_def)
  from le a have ll: "avail (in_buf s) \<le> length l" "l \<noteq> []" by (auto simp: l_def)
  then obtain x xs where l: "l = x # xs" by (cases l) auto
  from a obtain k where k: "avail (in_buf s) = Suc k" by (cases "avail (in_buf s)") auto
  from eq l k have x: "x = b" and r: "take k xs @ drop (fpos (fd s)) (contents (fd s)) = bs"
    by simp_all
  have "in_byte s = hd l" using ll le a
    by (simp add: in_byte_def l_def hd_drop_conv_nth)
  with l x have ib: "in_byte s = b" by simp
  have xs: "drop (Suc (nxt (in_buf s))) (buf (in_buf s)) = xs"
    using l by (metis l_def drop_Suc tl_drop list.sel(3))
  have gs: "guint_sub (Suc k) (Suc 0) = k" by (simp add: guint_sub_def)
  have st: "stream_at (in_advance 1 s) bs"
    using s k r unfolding stream_at_def in_advance_def
    by (simp add: gs xs)
  have io: "io_in s (in_advance 1 s)" by (simp add: io_in_def in_advance_def)
  from ib st io show ?thesis by (simp add: in_advance_def)
qed

lemma stream_at_GZ_GETC:
  assumes "stream_at s (b # bs)"
  shows "\<exists>s'. GZ_GETC s = (uint b, s') \<and> stream_at s' bs \<and> io_in s s'
              \<and> err_info s' = err_info s"
proof -
  from stream_at_ensure[OF assms] obtain s1
    where e: "(if avail (in_buf s) = 0 then fill_in_buffer s else (0, s)) = (0, s1)"
      and s1: "stream_at s1 (b # bs)" "avail (in_buf s1) \<noteq> 0" "io_in s s1" by blast
  from e have ei: "err_info s1 = err_info s"
    using fill_in_buffer_err[of s 0 s1] s1(1) assms
    by (auto simp: stream_at_def split: if_splits)
  from stream_at_byte[OF s1(1,2)] have b: "in_byte s1 = b" "stream_at (in_advance 1 s1) bs"
    "io_in s1 (in_advance 1 s1)" "err_info (in_advance 1 s1) = err_info s1" by simp_all
  have "uint b \<noteq> - 1" using uint_byte_range[of b] by linarith
  then have "GZ_GETC s = (uint b, in_advance 1 s1)"
    unfolding GZ_GETC_def e using s1(2) b(1) by simp
  with b s1(3) ei show ?thesis by (auto intro: io_in_trans)
qed

lemma gz_head_unknown_method:
  assumes s: "stream_at s (0x1f # 0x8b # cm # rest)" and cm: "cm \<noteq> 8"
  shows "\<exists>s'. gz_head be s = (- 1, s') \<and> err s' = WTAP_ERR_DECOMPRESS
              \<and> err_info s' = Some ''unknown compression method''"
proof -
  from stream_at_ensure[OF s] obtain s0
    where e0: "(if avail (in_buf s) = 0 then fill_in_buffer s else (0, s)) = (0, s0)"
      and s0: "stream_at s0 (0x1f # 0x8b # cm # rest)" "avail (in_buf s0) \<noteq> 0" by blast
  from stream_at_byte[OF s0] have b0: "in_byte s0 = 31"
    and s1: "stream_at (in_advance 1 s0) (0x8b # cm # rest)" by simp_all
  from stream_at_ensure[OF s1] obtain s2
    where e2: "(if avail (in_buf (in_advance 1 s0)) = 0 then fill_in_buffer (in_advance 1 s0)
                else (0, in_advance 1 s0)) = (0, s2)"
      and s2: "stream_at s2 (0x8b # cm # rest)" "avail (in_buf s2) \<noteq> 0" by blast
  from stream_at_byte[OF s2] have b2: "in_byte s2 = 139"
    and s3: "stream_at (in_advance 1 s2) (cm # rest)" by simp_all
  from stream_at_GZ_GETC[OF s3] obtain s4
    where g: "GZ_GETC (in_advance 1 s2) = (uint cm, s4)" by blast
  have "uint cm \<noteq> - 1" using uint_byte_range[of cm] by linarith
  with g have n: "gz_next1 (in_advance 1 s2) = (Some cm, s4)" by (simp add: gz_next1_def)
  have hg: "gz_head_gzip be (in_advance 1 s2) =
              (- 1, s4\<lparr>err := WTAP_ERR_DECOMPRESS, err_info := Some ''unknown compression method''\<rparr>)"
    using cm by (simp add: gz_head_gzip_def n del: One_nat_def)
  have "gz_head be s =
          (- 1, s4\<lparr>err := WTAP_ERR_DECOMPRESS, err_info := Some ''unknown compression method''\<rparr>)"
    unfolding gz_head_def e0 using s0(2) b0 s2(2) b2 hg by (simp add: e2 del: One_nat_def)
  then show ?thesis by simp
qed

text \<open>
  C8. The file starts \<open>1F 8B cm\<close> with \<open>cm \<noteq> 8\<close>, and its reads are full ones. On a reader
  just opened on it with \<^verbatim>\<open>file_fdopen\<close>, whether or not \<^verbatim>\<open>file_set_random_access\<close>
  has attached a fast-seek array, the first \<^verbatim>\<open>file_read\<close> (for one byte or more),
  \<^verbatim>\<open>file_peekc\<close> or \<^verbatim>\<open>file_getc\<close> returns -1, and \<^verbatim>\<open>file_error\<close> then gives
  \<^verbatim>\<open>WTAP_ERR_DECOMPRESS\<close> with the string "unknown compression method".
\<close>

theorem unknown_compression_method:
  assumes "events f = []" and "drop (fpos f) (contents f) = 0x1f # 0x8b # cm # rest"
    and "cm \<noteq> 8" and "0 < want" and "want < 2 ^ 32"
    and "s = file_set_random_access (file_fdopen be f want) seek"
  shows "(0 < len \<longrightarrow>
           (\<exists>s'. file_read be len s = Some (- 1, [], s') \<and>
                 file_error s' = (WTAP_ERR_DECOMPRESS, Some ''unknown compression method'')))
         \<and> (\<exists>s'. file_peekc be s = Some (- 1, s') \<and>
                 file_error s' = (WTAP_ERR_DECOMPRESS, Some ''unknown compression method''))
         \<and> (\<exists>s'. file_getc be s = Some (- 1, s') \<and>
                 file_error s' = (WTAP_ERR_DECOMPRESS, Some ''unknown compression method''))"
proof -
  have st: "stream_at s (0x1f # 0x8b # cm # rest)"
    using assms(1,2,4,5)
    by (simp add: assms(6) stream_at_def file_set_random_access_def file_fdopen_def gz_reset_def
          buf_reset_def Let_def)
  have fresh: "compression s = UNKNOWN" "avail (out_buf s) = 0" "\<not> seek_pending s"
    "err s = NO_ERROR" "\<not> eof s"
    by (simp_all add: assms(6) file_set_random_access_def file_fdopen_def gz_reset_def
          buf_reset_def Let_def)
  from gz_head_unknown_method[OF st assms(3)] obtain s'
    where h: "gz_head be s = (- 1, s')" and e: "err s' = WTAP_ERR_DECOMPRESS"
      "err_info s' = Some ''unknown compression method''" by blast
  have fo: "fill_out_buffer be s = Some (- 1, s')"
    using fresh h by (simp add: fill_out_buffer_def)
  have fe: "file_error s' = (WTAP_ERR_DECOMPRESS, Some ''unknown compression method'')"
    using e by (simp add: file_error_def)
  have rl: "file_read_loop be n 0 [] s = Some (- 1, [], s')" for n
    by (subst file_read_loop.simps) (simp add: fresh fo)
  have rd: "file_read be n s = Some (- 1, [], s')" if "0 < n" for n
    using that fresh rl by (simp add: file_read_def)
  have pl: "file_peekc_loop be s = Some (- 1, s')"
    by (subst file_peekc_loop.simps) (simp add: fresh fo)
  have pk: "file_peekc be s = Some (- 1, s')"
    using fresh pl by (simp add: file_peekc_def)
  have gc: "file_getc be s = Some (- 1, s')"
    using fresh rd[of 1] by (simp add: file_getc_def)
  from rd pk gc fe show ?thesis by blast
qed

theorem unknown_compression_method_witness:
  "events (demo_file [0x1f, 0x8b, 7, 0, 0, 0]) = []
   \<and> drop (fpos (demo_file [0x1f, 0x8b, 7, 0, 0, 0])) (contents (demo_file [0x1f, 0x8b, 7, 0, 0, 0]))
       = [0x1f, 0x8b, 7, 0, 0, 0]
   \<and> map_option fst (file_read demo_backend 1 demo_cm7) = Some (- 1)
   \<and> map_option (file_error \<circ> snd \<circ> snd) (file_read demo_backend 1 demo_cm7)
       = Some (WTAP_ERR_DECOMPRESS, Some ''unknown compression method'')
   \<and> map_option fst (file_peekc demo_backend demo_cm7) = Some (- 1)
   \<and> map_option (file_error \<circ> snd) (file_getc demo_backend demo_cm7)
       = Some (WTAP_ERR_DECOMPRESS, Some ''unknown compression method'')"
proof -
  have a: "events (demo_file [0x1f, 0x8b, 7, 0, 0, 0]) = []"
    "drop (fpos (demo_file [0x1f, 0x8b, 7, 0, 0, 0])) (contents (demo_file [0x1f, 0x8b, 7, 0, 0, 0]))
       = [0x1f, 0x8b, 7, 0, 0, 0]"
    by (simp_all add: demo_file_def)
  have b: "(7 :: byte) \<noteq> 8" "(0 :: nat) < 4096" "(4096 :: nat) < 2 ^ 32" by simp_all
  from unknown_compression_method[OF a b demo_cm7_def, of 1]
  show ?thesis using a by auto
qed

subsection \<open>The fast-seek array stays sorted\<close>

lemma gz_skip_fs:
  assumes "gz_skip be len s = Some p"
  shows "fs_frame s (snd p)"
proof (rule gz_skip.raw_induct[where P = "\<lambda>be len s p. fs_frame s (snd p)", OF _ assms])
  fix loop :: "'a backend \<Rightarrow> int \<Rightarrow> 'a wtap_reader \<Rightarrow> (int \<times> 'a wtap_reader) option"
    and be len s p
  assume IH: "\<And>be len s p. loop be len s = Some p \<Longrightarrow> fs_frame s (snd p)"
    and body: "(if len \<noteq> 0 then
        (if avail (out_buf s) \<noteq> 0 then
           (let n = (if int (avail (out_buf s)) > len then to_guint len
                     else avail (out_buf s))
            in loop be (len - int n)
                 (s\<lparr>out_buf := (out_buf s)\<lparr>avail := guint_sub (avail (out_buf s)) n,
                                                   nxt := nxt (out_buf s) + n\<rparr>,
                        pos := pos s + int n\<rparr>))
         else if err s \<noteq> NO_ERROR then Some (- 1, s)
         else if eof s \<and> avail (in_buf s) = 0 then Some (0, s)
         else
           (case fill_out_buffer be s of
              None \<Rightarrow> None
            | Some (r, s1) \<Rightarrow> if r = - 1 then Some (- 1, s1) else loop be len s1))
      else Some (0, s)) = Some p"
  consider (fin) "len = 0 \<or> (avail (out_buf s) = 0 \<and> (err s \<noteq> NO_ERROR \<or> (eof s \<and> avail (in_buf s) = 0)))"
    | (out) "len \<noteq> 0" "avail (out_buf s) \<noteq> 0"
    | (fill) "len \<noteq> 0" "avail (out_buf s) = 0" "err s = NO_ERROR"
        "\<not> (eof s \<and> avail (in_buf s) = 0)"
    by blast
  then show "fs_frame s (snd p)"
  proof cases
    case fin
    with body show ?thesis by (auto split: if_splits)
  next
    case out
    define n where "n = (if int (avail (out_buf s)) > len then to_guint len
                     else avail (out_buf s))"
    define s1 where "s1 = s\<lparr>out_buf := (out_buf s)\<lparr>avail := guint_sub (avail (out_buf s)) n,
                                                   nxt := nxt (out_buf s) + n\<rparr>,
                        pos := pos s + int n\<rparr>"
    from body out have "loop be (len - int n) s1 = Some p"
      by (simp add: n_def s1_def Let_def)
    from IH[OF this] show ?thesis by (simp add: s1_def)
  next
    case fill
    with body obtain r s1 where f: "fill_out_buffer be s = Some (r, s1)"
      and rest: "(if r = - 1 then Some (- 1, s1) else loop be len s1) = Some p"
      by (auto split: option.splits)
    have fo: "fs_frame s s1" using fill_out_buffer_ok[OF f] by (simp add: fill_ok_def fill_frame_def)
    show ?thesis
    proof (cases "r = - 1")
      case True
      with rest fo show ?thesis by auto
    next
      case False
      with rest have "loop be len s1 = Some p" by simp
      from IH[OF this] fo show ?thesis by (rule fs_frame_trans[rotated])
    qed
  qed
qed

lemma file_read_fs:
  assumes "file_read be len s = Some (r, copied, s')"
  shows "fs_frame s s'"
proof (cases "len = 0")
  case True
  with assms show ?thesis by (auto simp: file_read_def)
next
  case False
  with assms obtain x f1
    where g: "(if seek_pending s then gz_skip be (skip s) (s\<lparr>seek_pending := False\<rparr>)
               else Some (0, s)) = Some (x, f1)"
      and rest: "(if x = - 1 then Some (- 1, [], f1) else file_read_loop be len 0 [] f1)
                   = Some (r, copied, s')"
    by (auto simp: file_read_def split: option.splits)
  have a: "fs_frame s f1"
  proof (cases "seek_pending s")
    case True
    with g have "gz_skip be (skip s) (s\<lparr>seek_pending := False\<rparr>) = Some (x, f1)" by simp
    from gz_skip_fs[OF this] show ?thesis by simp
  next
    case False
    with g show ?thesis by simp
  qed
  show ?thesis
  proof (cases "x = - 1")
    case True
    with rest a show ?thesis by simp
  next
    case False
    with rest have "file_read_loop be len 0 [] f1 = Some (r, copied, s')" by simp
    from file_read_loop_ok[OF this] have "fs_frame f1 s'" by (simp add: read_ok_def Let_def)
    with a show ?thesis by (rule fs_frame_trans)
  qed
qed

lemma file_peekc_fs:
  assumes "file_peekc be s = Some (r, s')"
  shows "fs_frame s s'"
proof (cases "err s \<noteq> NO_ERROR \<or> avail (out_buf s) \<noteq> 0")
  case True
  with assms show ?thesis by (auto simp: file_peekc_def split: if_splits)
next
  case False
  with assms obtain x f1
    where g: "(if seek_pending s then gz_skip be (skip s) (s\<lparr>seek_pending := False\<rparr>)
               else Some (0, s)) = Some (x, f1)"
      and rest: "(if x = - 1 then Some (- 1, f1) else file_peekc_loop be f1) = Some (r, s')"
    by (auto simp: file_peekc_def split: option.splits)
  have a: "fs_frame s f1"
  proof (cases "seek_pending s")
    case True
    with g have "gz_skip be (skip s) (s\<lparr>seek_pending := False\<rparr>) = Some (x, f1)" by simp
    from gz_skip_fs[OF this] show ?thesis by simp
  next
    case False
    with g show ?thesis by simp
  qed
  show ?thesis
  proof (cases "x = - 1")
    case True
    with rest a show ?thesis by simp
  next
    case False
    with rest have "file_peekc_loop be f1 = Some (r, s')" by simp
    from file_peekc_loop_ok[OF this] have "fs_frame f1 s'" by (simp add: fill_frame_def)
    with a show ?thesis by (rule fs_frame_trans)
  qed
qed

lemma file_getc_fs:
  assumes "file_getc be s = Some (r, s')"
  shows "fs_frame s s'"
proof (cases "err s \<noteq> NO_ERROR \<or> avail (out_buf s) \<noteq> 0")
  case True
  with assms show ?thesis by (auto simp: file_getc_def split: if_splits)
next
  case False
  with assms obtain ret copied where "file_read be 1 s = Some (ret, copied, s')"
    by (auto simp: file_getc_def split: option.splits)
  then show ?thesis by (rule file_read_fs)
qed

lemma fast_seek_reset_fs [simp]: "fs_frame s (fast_seek_reset s') = fs_frame s s'"
  by (simp add: fast_seek_reset_def split: option.splits)

lemma gz_reset_fs [simp]: "fs_frame s (gz_reset s') = fs_frame s s'"
  by (simp add: gz_reset_def)

lemma file_seek_slow_fs:
  assumes "file_seek_slow offset s = (r, e, s')"
  shows "fs_frame s s'"
  using assms
  by (auto simp: file_seek_slow_def Let_def split: if_splits sum.splits prod.splits)

lemma GZ_GETC_fs: "GZ_GETC s1 = (ch, s2) \<Longrightarrow> fs_frame s s1 \<Longrightarrow> fs_frame s s2"
  using GZ_GETC_io[of s1 ch s2] io_in_fill_frame[of s1 s2]
  by (auto simp: fill_frame_def intro: fs_frame_trans)

lemma file_seek_fast_fs:
  fixes be :: "'z backend" and s s' :: "'z wtap_reader"
  assumes "file_seek_fast be here offset s = (r, e, s')"
  shows "fs_frame s s'"
proof -
  obtain off off2 where oo: "(if fsp_compression here = ZLIB
             then (fsp_in here - (if fsp_bits here \<noteq> 0 then 1 else 0), fsp_out here)
             else if fsp_compression here = GZIP_AFTER_HEADER then (fsp_in here, fsp_out here)
             else (fsp_in here + ((pos s + offset) - fsp_out here), pos s + offset)) = (off, off2)"
    by (cases "(if fsp_compression here = ZLIB
             then (fsp_in here - (if fsp_bits here \<noteq> 0 then 1 else 0), fsp_out here)
             else if fsp_compression here = GZIP_AFTER_HEADER then (fsp_in here, fsp_out here)
             else (fsp_in here + ((pos s + offset) - fsp_out here), pos s + offset))") auto
  show ?thesis
  proof (cases "ws_lseek64 (fd s) off SEEK_SET")
    case (Inl x)
    with assms oo show ?thesis by (auto simp: file_seek_fast_def)
  next
    case (Inr fd1)
    define f1 where "f1 = fast_seek_reset (s\<lparr>fd := fd1\<rparr>)"
    define f2 where "f2 = f1\<lparr>raw_pos := off, out_buf := buf_reset (out_buf f1), eof := False,
                          seek_pending := False, err := NO_ERROR, err_info := None,
                          in_buf := buf_reset (in_buf f1)\<rparr>"
    define rr :: "(int \<times> errcode option \<times> 'z wtap_reader) + 'z wtap_reader" where "rr =
                    (if fsp_compression here = ZLIB then
                       (let f3 = f2\<lparr>strm := (inflateReset be (strm f2))
                                       \<lparr>adler := fsp_adler here,
                                        total_out := unat (fsp_total_out here)\<rparr>\<rparr>;
                            p =
                              (if fsp_bits here \<noteq> 0 then
                                 (let (ret, f4) = GZ_GETC f3
                                  in if ret = - 1
                                     then Inl (- 1,
                                            Some (if err f4 = NO_ERROR then WTAP_ERR_SHORT_READ
                                                  else err f4), f4)
                                     else Inr (f4\<lparr>strm := (strm f4)
                                                 \<lparr>zstate := inflatePrime_fn be (zstate (strm f4))
                                                     (fsp_bits here)
                                                     (drop_bit (8 - fsp_bits here) ret)\<rparr>\<rparr>))
                               else Inr f3)
                        in case p of
                             Inl x \<Rightarrow> Inl x
                           | Inr f5 \<Rightarrow>
                               Inr (f5\<lparr>strm := (strm f5)
                                        \<lparr>zstate := inflateSetDictionary_fn be (zstate (strm f5))
                                            (take ZLIB_WINSIZE (fsp_window here))\<rparr>,
                                       compression := ZLIB\<rparr>))
                     else if fsp_compression here = GZIP_AFTER_HEADER then
                       Inr (f2\<lparr>strm := (inflateReset be (strm f2))\<lparr>adler := 0\<rparr>,
                               compression := ZLIB\<rparr>)
                     else Inr (f2\<lparr>compression := fsp_compression here\<rparr>))"
    have res: "(r, e, s') = (case rr of
                   Inl x \<Rightarrow> x
                 | Inr f6 \<Rightarrow>
                     (let offset1 = (pos f6 + offset) - off2;
                          f7 = f6\<lparr>pos := off2\<rparr>;
                          f8 = (if offset1 \<noteq> 0 then f7\<lparr>seek_pending := True, skip := offset1\<rparr>
                                else f7)
                      in (pos f8 + offset1, None, f8)))"
      using assms(1) oo Inr unfolding file_seek_fast_def rr_def f2_def f1_def Let_def
      by simp
    have f2: "fs_frame s f2" by (simp add: f2_def f1_def)
    have g: "fs_frame s f4" if "GZ_GETC f3 = (ret, f4)" "fs_frame s f3"
      for f3 f4 :: "'z wtap_reader" and ret
      using that by (rule GZ_GETC_fs)
    have good: "fs_frame s f6" if "rr = Inr f6" for f6
      using that f2 unfolding rr_def Let_def
      by (auto split: if_splits prod.splits sum.splits dest!: g)
    have bad: "fs_frame s (snd (snd x))" if "rr = Inl x" for x
      using that f2 unfolding rr_def Let_def
      by (auto split: if_splits prod.splits sum.splits dest!: g)
    show ?thesis
    proof (cases rr)
      case (Inl x)
      with res bad[OF Inl] show ?thesis by (cases x) auto
    next
      case (Inr f6)
      with res good[OF Inr] show ?thesis
        by (auto simp: Let_def split: if_splits)
    qed
  qed
qed

lemma file_seek_offset_fs:
  assumes "file_seek_offset be offset s = Some (r, e, s')"
  shows "fs_frame s s'"
proof -
  define fl where "fl = s\<lparr>seek_pending := False\<rparr>"
  have np: "fs_frame s fl" by (simp add: fl_def)
  consider (near) "offset = 0 \<or> (offset < 0 \<and> - offset \<le> int (offset_in_buffer (out_buf fl)))
        \<or> (\<not> offset < 0 \<and> offset < int (avail (out_buf fl)))"
    | (far) "offset \<noteq> 0" "\<not> (offset < 0 \<and> - offset \<le> int (offset_in_buffer (out_buf fl)))"
        "\<not> (\<not> offset < 0 \<and> offset < int (avail (out_buf fl)))"
    by blast
  then show ?thesis
  proof cases
    case near
    with assms(1) show ?thesis
      unfolding file_seek_offset_def fl_def[symmetric] Let_def
      using np by (auto split: if_splits)
  next
    case far
    with assms(1) have "(case fast_seek_find fl (pos fl + offset) of
              None \<Rightarrow> None
            | Some None \<Rightarrow> Some (file_seek_slow offset fl)
            | Some (Some here) \<Rightarrow>
                if offset < 0 \<or> offset > SPAN \<or> fsp_compression here = UNCOMPRESSED
                then Some (file_seek_fast be here offset fl)
                else Some (file_seek_slow offset fl)) = Some (r, e, s')"
      unfolding file_seek_offset_def fl_def[symmetric] Let_def by simp
    then consider "file_seek_slow offset fl = (r, e, s')"
      | here where "file_seek_fast be here offset fl = (r, e, s')"
      by (auto split: option.splits if_splits)
    then have "fs_frame fl s'"
      by cases (auto dest: file_seek_slow_fs file_seek_fast_fs)
    with np show ?thesis by (rule fs_frame_trans)
  qed
qed

lemma file_seek_fs:
  assumes "file_seek be offset whence s = Some (r, e, s')"
  shows "fs_frame s s'"
proof (cases whence)
  case SEEK_SET
  with assms show ?thesis by (auto simp: file_seek_def dest: file_seek_offset_fs)
next
  case SEEK_CUR
  with assms show ?thesis by (auto simp: file_seek_def dest: file_seek_offset_fs)
next
  case SEEK_END
  with assms(1) obtain x f1 where g: "gz_skip be G_MAXINT64 s = Some (x, f1)"
    and rest: "(if x = - 1 then Some (- 1, Some (err f1), f1)
               else if offset = 0 then Some (pos f1, None, f1)
               else file_seek_offset be offset f1) = Some (r, e, s')"
    by (auto simp: file_seek_def split: option.splits)
  from gz_skip_fs[OF g] have a: "fs_frame s f1" by simp
  from rest consider "s' = f1" | "file_seek_offset be offset f1 = Some (r, e, s')"
    by (auto split: if_splits)
  then show ?thesis
  proof cases
    case 1
    with a show ?thesis by simp
  next
    case 2
    from a file_seek_offset_fs[OF 2] show ?thesis by (rule fs_frame_trans)
  qed
qed

lemma reachable_sorted:
  assumes "reachable be s"
  shows "fast_seek_sorted s"
  using assms
proof induction
  case (fdopened f want)
  show ?case by (simp add: fast_seek_sorted_def file_fdopen_def gz_reset_def Let_def)
next
  case (opened path f want s)
  then show ?case
    by (auto simp: fast_seek_sorted_def file_open_def file_fdopen_def gz_reset_def Let_def
        split: option.splits if_splits)
next
  case (attached s seek)
  then show ?case by (simp add: fast_seek_sorted_def file_set_random_access_def)
next
  case (was_read s len r copied s')
  with file_read_fs[of be len s r copied s'] show ?case by (simp add: fs_frame_def)
next
  case (peeked s r s')
  with file_peekc_fs[of be s r s'] show ?case by (simp add: fs_frame_def)
next
  case (got s r s')
  with file_getc_fs[of be s r s'] show ?case by (simp add: fs_frame_def)
next
  case (sought s offset whence r e s')
  with file_seek_fs[of be offset whence s r e s'] show ?case by (simp add: fs_frame_def)
next
  case (cleared s)
  then show ?case by (simp add: fast_seek_sorted_def file_clearerr_def)
qed

text \<open>
  C5. Both append paths leave the array as it is or add one entry at its end, whose
  \<open>out\<close> is the position given and is strictly greater than the \<open>out\<close> of the entry that
  was last (\<^verbatim>\<open>fast_seek_header\<close> also adds to an empty array); so both keep a sorted array
  sorted. Every operation on a reader (filling the output buffer, \<^verbatim>\<open>file_read\<close>,
  \<^verbatim>\<open>file_peekc\<close>, \<^verbatim>\<open>file_getc\<close>, \<^verbatim>\<open>file_seek\<close>) only adds entries at the end of the
  array attached to it and keeps it strictly sorted by \<open>out\<close>, and the array of every
  reachable reader is strictly sorted by \<open>out\<close>.
\<close>

theorem fast_seek_stays_sorted:
  "(fast_seek_header pdata in_pos out_pos c = pdata \<or>
      (\<exists>v. fast_seek_header pdata in_pos out_pos c = pdata @ [v] \<and> fsp_out v = out_pos \<and>
           (pdata = [] \<or> fsp_out (last pdata) < out_pos)))
   \<and> (zlib_fast_seek_add pdata point bits in_pos out_pos a t = Some pdata' \<longrightarrow>
         pdata' = pdata \<or>
         (\<exists>v. pdata' = pdata @ [v] \<and> fsp_out v = out_pos \<and> fsp_out (last pdata) < out_pos))
   \<and> (sorted_wrt (<) (map fsp_out pdata) \<longrightarrow>
         sorted_wrt (<) (map fsp_out (fast_seek_header pdata in_pos out_pos c)) \<and>
         (zlib_fast_seek_add pdata point bits in_pos out_pos a t = Some pdata' \<longrightarrow>
            sorted_wrt (<) (map fsp_out pdata')))
   \<and> (fill_out_buffer be s = Some (r0, s0) \<longrightarrow>
         fast_seek_extends s s0 \<and> (fast_seek_sorted s \<longrightarrow> fast_seek_sorted s0))
   \<and> (file_read be len s = Some (r1, copied, s1) \<longrightarrow>
         fast_seek_extends s s1 \<and> (fast_seek_sorted s \<longrightarrow> fast_seek_sorted s1))
   \<and> (file_peekc be s = Some (r2, s2) \<longrightarrow>
         fast_seek_extends s s2 \<and> (fast_seek_sorted s \<longrightarrow> fast_seek_sorted s2))
   \<and> (file_getc be s = Some (r3, s3) \<longrightarrow>
         fast_seek_extends s s3 \<and> (fast_seek_sorted s \<longrightarrow> fast_seek_sorted s3))
   \<and> (file_seek be offset whence s = Some (r4, e, s4) \<longrightarrow>
         fast_seek_extends s s4 \<and> (fast_seek_sorted s \<longrightarrow> fast_seek_sorted s4))
   \<and> (reachable be s \<longrightarrow> fast_seek_sorted s)"
proof -
  have fr: "fast_seek_extends x y \<and> (fast_seek_sorted x \<longrightarrow> fast_seek_sorted y)"
    if "fs_frame x y" for x y :: "'a wtap_reader"
    using that by (simp add: fs_frame_def)
  have h: "fast_seek_header pdata in_pos out_pos c = pdata \<or>
      (\<exists>v. fast_seek_header pdata in_pos out_pos c = pdata @ [v] \<and> fsp_out v = out_pos \<and>
           (pdata = [] \<or> fsp_out (last pdata) < out_pos))"
    by (rule fast_seek_header_cases)
  have z: "zlib_fast_seek_add pdata point bits in_pos out_pos a t = Some pdata' \<longrightarrow>
         pdata' = pdata \<or>
         (\<exists>v. pdata' = pdata @ [v] \<and> fsp_out v = out_pos \<and> fsp_out (last pdata) < out_pos)"
  proof
    assume "zlib_fast_seek_add pdata point bits in_pos out_pos a t = Some pdata'"
    from zlib_fast_seek_add_cases[OF this]
    show "pdata' = pdata \<or>
         (\<exists>v. pdata' = pdata @ [v] \<and> fsp_out v = out_pos \<and> fsp_out (last pdata) < out_pos)"
      by (auto simp: SPAN_def)
  qed
  have srt: "sorted_wrt (<) (map fsp_out pdata) \<longrightarrow>
         sorted_wrt (<) (map fsp_out (fast_seek_header pdata in_pos out_pos c)) \<and>
         (zlib_fast_seek_add pdata point bits in_pos out_pos a t = Some pdata' \<longrightarrow>
            sorted_wrt (<) (map fsp_out pdata'))"
    using fast_seek_header_sorted[of pdata in_pos out_pos c]
      zlib_fast_seek_add_sorted[of pdata point bits in_pos out_pos a t pdata'] by blast
  have f0: "fill_out_buffer be s = Some (r0, s0) \<longrightarrow>
         fast_seek_extends s s0 \<and> (fast_seek_sorted s \<longrightarrow> fast_seek_sorted s0)"
  proof
    assume "fill_out_buffer be s = Some (r0, s0)"
    from fill_out_buffer_ok[OF this] have "fs_frame s s0"
      by (simp add: fill_ok_def fill_frame_def)
    then show "fast_seek_extends s s0 \<and> (fast_seek_sorted s \<longrightarrow> fast_seek_sorted s0)"
      by (rule fr)
  qed
  have f1: "file_read be len s = Some (r1, copied, s1) \<longrightarrow>
         fast_seek_extends s s1 \<and> (fast_seek_sorted s \<longrightarrow> fast_seek_sorted s1)"
    using file_read_fs[of be len s r1 copied s1] fr[of s s1] by blast
  have f2: "file_peekc be s = Some (r2, s2) \<longrightarrow>
         fast_seek_extends s s2 \<and> (fast_seek_sorted s \<longrightarrow> fast_seek_sorted s2)"
    using file_peekc_fs[of be s r2 s2] fr[of s s2] by blast
  have f3: "file_getc be s = Some (r3, s3) \<longrightarrow>
         fast_seek_extends s s3 \<and> (fast_seek_sorted s \<longrightarrow> fast_seek_sorted s3)"
    using file_getc_fs[of be s r3 s3] fr[of s s3] by blast
  have f4: "file_seek be offset whence s = Some (r4, e, s4) \<longrightarrow>
         fast_seek_extends s s4 \<and> (fast_seek_sorted s \<longrightarrow> fast_seek_sorted s4)"
    using file_seek_fs[of be offset whence s r4 e s4] fr[of s s4] by blast
  have re: "reachable be s \<longrightarrow> fast_seek_sorted s"
    using reachable_sorted[of be s] by blast
  from h z srt f0 f1 f2 f3 f4 re show ?thesis by (intro conjI)
qed

theorem fast_seek_stays_sorted_witness:
  "reachable demo_backend demo_abc_ra \<and> fast_seek_sorted demo_abc_ra
   \<and> fast_seek demo_abc_ra = Some []
   \<and> map_option (map fsp_out)
        (zlib_fast_seek_add [demo_point 0] \<lparr>cur_window = [], cur_pos = 0, cur_have = 0\<rparr> 0 5
           (SPAN + 1) 0 0) = Some [0, SPAN + 1]
   \<and> map_option (map_option (map fsp_out) \<circ> fast_seek \<circ> snd) (fill_out_buffer demo_backend demo_abc_ra)
        = Some (Some [0])
   \<and> map_option (fast_seek_sorted \<circ> snd) (fill_out_buffer demo_backend demo_abc_ra) = Some True
   \<and> map_option fst (file_read demo_backend 1 demo_abc_ra) = Some 1
   \<and> map_option (fast_seek_sorted \<circ> snd \<circ> snd) (file_read demo_backend 1 demo_abc_ra) = Some True
   \<and> map_option fst (file_peekc demo_backend demo_abc_ra) = Some 0x41
   \<and> map_option (fast_seek_sorted \<circ> snd) (file_peekc demo_backend demo_abc_ra) = Some True
   \<and> map_option fst (file_getc demo_backend demo_abc_ra) = Some 0x41
   \<and> map_option (fast_seek_sorted \<circ> snd) (file_getc demo_backend demo_abc_ra) = Some True
   \<and> map_option fst (file_seek demo_backend 2 SEEK_SET demo_abc_ra) = Some 2
   \<and> map_option (fast_seek_sorted \<circ> snd \<circ> snd) (file_seek demo_backend 2 SEEK_SET demo_abc_ra)
        = Some True"
proof -
  have fa: "fast_seek demo_abc_ra = Some []"
    by (simp add: demo_abc_ra_def file_set_random_access_def)
  have rch: "reachable demo_backend demo_abc_ra"
    unfolding demo_abc_ra_def demo_abc_def
    by (rule reachable.attached[OF reachable.fdopened]) simp
  note t = fast_seek_stays_sorted[where be = demo_backend and s = demo_abc_ra,
      THEN conjunct2, THEN conjunct2, THEN conjunct2]
  note p0 = t[THEN conjunct1, rule_format]
  note p1 = t[THEN conjunct2, THEN conjunct1, rule_format]
  note p2 = t[THEN conjunct2, THEN conjunct2, THEN conjunct1, rule_format]
  note p3 = t[THEN conjunct2, THEN conjunct2, THEN conjunct2, THEN conjunct1, rule_format]
  note p4 = t[THEN conjunct2, THEN conjunct2, THEN conjunct2, THEN conjunct2, THEN conjunct1,
      rule_format]
  note p5 = t[THEN conjunct2, THEN conjunct2, THEN conjunct2, THEN conjunct2, THEN conjunct2,
      rule_format]
  from p5[OF rch] have so: "fast_seek_sorted demo_abc_ra" .
  have z: "map_option (map fsp_out)
        (zlib_fast_seek_add [demo_point 0] \<lparr>cur_window = [], cur_pos = 0, cur_have = 0\<rparr> 0 5
           (SPAN + 1) 0 0) = Some [0, SPAN + 1]"
    by (simp add: zlib_fast_seek_add_def demo_point_def SPAN_def Let_def)
  have e0: "map_option (map_option (map fsp_out) \<circ> fast_seek \<circ> snd)
              (fill_out_buffer demo_backend demo_abc_ra) = Some (Some [0])"
    by (simp add: demo_abc_ra_def demo_abc_def reader_defs fast_seek_header_def cong: eval_congs)
  then obtain r0 s0 where x0: "fill_out_buffer demo_backend demo_abc_ra = Some (r0, s0)"
    by (cases "fill_out_buffer demo_backend demo_abc_ra") auto
  from p0[OF x0] so have c0: "fast_seek_sorted s0" by blast
  have e1: "map_option fst (file_read demo_backend 1 demo_abc_ra) = Some 1"
    by (simp add: demo_abc_ra_def demo_abc_def reader_defs fast_seek_header_def
          file_read_loop.simps cong: eval_congs)
  then obtain copied s1 where x1: "file_read demo_backend 1 demo_abc_ra = Some (1, copied, s1)"
    by (cases "file_read demo_backend 1 demo_abc_ra") auto
  from p1[OF x1] so have c1: "fast_seek_sorted s1" by blast
  have e2: "map_option fst (file_peekc demo_backend demo_abc_ra) = Some 0x41"
    by (simp add: demo_abc_ra_def demo_abc_def reader_defs fast_seek_header_def
          file_peekc_loop.simps cong: eval_congs)
  then obtain s2 where x2: "file_peekc demo_backend demo_abc_ra = Some (0x41, s2)"
    by (cases "file_peekc demo_backend demo_abc_ra") auto
  from p2[OF x2] so have c2: "fast_seek_sorted s2" by blast
  have e3: "map_option fst (file_getc demo_backend demo_abc_ra) = Some 0x41"
    by (simp add: demo_abc_ra_def demo_abc_def reader_defs fast_seek_header_def
          file_read_loop.simps cong: eval_congs)
  then obtain s3 where x3: "file_getc demo_backend demo_abc_ra = Some (0x41, s3)"
    by (cases "file_getc demo_backend demo_abc_ra") auto
  from p3[OF x3] so have c3: "fast_seek_sorted s3" by blast
  have e4: "map_option fst (file_seek demo_backend 2 SEEK_SET demo_abc_ra) = Some 2"
    by (simp add: demo_abc_ra_def demo_abc_def reader_defs fast_seek_find_loop.simps
          cong: eval_congs)
  then obtain e s4 where x4: "file_seek demo_backend 2 SEEK_SET demo_abc_ra = Some (2, e, s4)"
    by (cases "file_seek demo_backend 2 SEEK_SET demo_abc_ra") auto
  from p4[OF x4] so have c4: "fast_seek_sorted s4" by blast
  from x0 c0 have g0: "map_option (fast_seek_sorted \<circ> snd) (fill_out_buffer demo_backend demo_abc_ra)
                         = Some True" by simp
  from x1 c1 have g1: "map_option (fast_seek_sorted \<circ> snd \<circ> snd)
                         (file_read demo_backend 1 demo_abc_ra) = Some True" by simp
  from x2 c2 have g2: "map_option (fast_seek_sorted \<circ> snd) (file_peekc demo_backend demo_abc_ra)
                         = Some True" by simp
  from x3 c3 have g3: "map_option (fast_seek_sorted \<circ> snd) (file_getc demo_backend demo_abc_ra)
                         = Some True" by simp
  from x4 c4 have g4: "map_option (fast_seek_sorted \<circ> snd \<circ> snd)
                         (file_seek demo_backend 2 SEEK_SET demo_abc_ra) = Some True" by simp
  from rch so fa z e0 e1 e2 e3 e4 g0 g1 g2 g3 g4 show ?thesis by simp
qed

end
